theory Spec2Isabelle
  imports Main "HOL-Library.Multiset"
begin

section \<open>DistributedBucketSampler of data\_utils.py\<close>

text \<open>
  The sampler groups the samples of a dataset into length buckets, pads every bucket to a
  multiple of \<open>num_replicas * batch_size\<close>, gives every replica a strided shard of each
  padded bucket and cuts the shard into batches.

  Python integers are \<open>int\<close>; sample indices and list positions, which the code only ever
  produces with \<open>range\<close> and \<open>len\<close>, are \<open>nat\<close>. Every exception the interpreter can
  raise in the modelled code is a value of \<open>error\<close>.
\<close>

datatype error = ZeroDivisionError | IndexError | ValueError | AssertionError

subsection \<open>List primitives of the interpreter\<close>

text \<open>\<open>xs[i]\<close>: a negative index counts from the end, anything outside raises.\<close>

definition py_index :: "nat \<Rightarrow> int \<Rightarrow> error + nat" where
  "py_index n i =
     (if 0 \<le> i \<and> i < int n then Inr (nat i)
      else if i < 0 \<and> - int n \<le> i then Inr (nat (i + int n))
      else Inl IndexError)"

definition py_get :: "'a list \<Rightarrow> int \<Rightarrow> error + 'a" where
  "py_get xs i = (case py_index (length xs) i of Inl e \<Rightarrow> Inl e | Inr k \<Rightarrow> Inr (xs ! k))"

subsection \<open>\<open>_bisect\<close>\<close>

text \<open>
  \<^verbatim>\<open>
  def _bisect(self, x, lo=0, hi=None):
      if hi is None:
          hi = len(self.boundaries) - 1
      if hi > lo:
          mid = (hi + lo) // 2
          if self.boundaries[mid] < x <= self.boundaries[mid + 1]:
              return mid
          elif x <= self.boundaries[mid]:
              return self._bisect(x, lo, mid)
          else:
              return self._bisect(x, mid + 1, hi)
      else:
          return -1
  \<close>
  \<open>bnds\<close> is the value of \<open>self.boundaries\<close>. The chained comparison reads
  \<open>boundaries[mid + 1]\<close> only when \<open>boundaries[mid] < x\<close> holds; the model reads in the
  same order.
\<close>

function bisect :: "int list \<Rightarrow> int \<Rightarrow> int \<Rightarrow> int \<Rightarrow> error + int" where
  "bisect bnds x lo hi =
     (if hi > lo then
        (case py_get bnds ((hi + lo) div 2) of
           Inl e \<Rightarrow> Inl e
         | Inr bm \<Rightarrow>
             (if bm < x then
                (case py_get bnds ((hi + lo) div 2 + 1) of
                   Inl e \<Rightarrow> Inl e
                 | Inr bm1 \<Rightarrow>
                     (if x \<le> bm1 then Inr ((hi + lo) div 2)
                      else if x \<le> bm then bisect bnds x lo ((hi + lo) div 2)
                      else bisect bnds x ((hi + lo) div 2 + 1) hi))
              else if x \<le> bm then bisect bnds x lo ((hi + lo) div 2)
              else bisect bnds x ((hi + lo) div 2 + 1) hi))
      else Inr (- 1))"
  by pat_completeness auto
termination
  by (relation "measure (\<lambda>(bnds, x, lo, hi). nat (hi - lo))") auto

text \<open>The call \<open>self._bisect(length)\<close> with the default arguments.\<close>

definition bisect_default :: "int list \<Rightarrow> int \<Rightarrow> error + int" where
  "bisect_default bnds x = bisect bnds x 0 (int (length bnds) - 1)"


subsection \<open>\<open>_create_buckets\<close>\<close>

text \<open>
  \<^verbatim>\<open>
  buckets = [[] for _ in range(len(self.boundaries) - 1)]
  for i in range(len(self.lengths)):
      length = self.lengths[i]
      idx_bucket = self._bisect(length)
      if idx_bucket != -1:
          buckets[idx_bucket].append(i)
  \<close>
  \<open>classify\<close> is the loop: the lengths still to visit, the running index \<open>i\<close> and the
  buckets built so far.
\<close>

fun classify :: "int list \<Rightarrow> int list \<Rightarrow> nat \<Rightarrow> nat list list \<Rightarrow> error + nat list list" where
  "classify bnds [] i bkts = Inr bkts"
| "classify bnds (len # rest) i bkts =
     (case bisect_default bnds len of
        Inl e \<Rightarrow> Inl e
      | Inr idx_bucket \<Rightarrow>
          (if idx_bucket \<noteq> - 1 then
             (case py_index (length bkts) idx_bucket of
                Inl e \<Rightarrow> Inl e
              | Inr k \<Rightarrow> classify bnds rest (Suc i) (bkts[k := bkts ! k @ [i]]))
           else classify bnds rest (Suc i) bkts))"

text \<open>
  \<^verbatim>\<open>
  for i in range(len(buckets) - 1, 0, -1):
      if len(buckets[i]) == 0:
          buckets.pop(i)
          self.boundaries.pop(i + 1)
  \<close>
  \<open>prune_loop k\<close> runs the iterations \<open>i = k, k - 1, ..., 1\<close>. It returns the boundary
  list as the loop leaves it, also when an index is out of range.
\<close>

definition pop_at :: "'a list \<Rightarrow> nat \<Rightarrow> 'a list" where
  "pop_at xs i = take i xs @ drop (Suc i) xs"

fun prune_loop :: "nat \<Rightarrow> nat list list \<Rightarrow> int list \<Rightarrow> int list \<times> (error + nat list list)" where
  "prune_loop 0 bkts bnds = (bnds, Inr bkts)"
| "prune_loop (Suc k) bkts bnds =
     (if Suc k < length bkts then
        (if length (bkts ! Suc k) = 0 then
           (if Suc k + 1 < length bnds
            then prune_loop k (pop_at bkts (Suc k)) (pop_at bnds (Suc k + 1))
            else (bnds, Inl IndexError))
         else prune_loop k bkts bnds)
      else (bnds, Inl IndexError))"

text \<open>
  \<^verbatim>\<open>
  num_samples_per_bucket = []
  for i in range(len(buckets)):
      len_bucket = len(buckets[i])
      total_batch_size = self.num_replicas * self.batch_size
      rem = (total_batch_size - (len_bucket % total_batch_size)) % total_batch_size
      num_samples_per_bucket.append(len_bucket + rem)
  \<close>
  \<open>%\<close> with a zero divisor raises; for a non-zero divisor it is \<open>mod\<close> on \<open>int\<close>
  (the result has the sign of the divisor in both).
\<close>

definition padded_count :: "int \<Rightarrow> int \<Rightarrow> nat \<Rightarrow> error + int" where
  "padded_count nr bs len_bucket =
     (if nr * bs = 0 then Inl ZeroDivisionError
      else Inr (int len_bucket + (nr * bs - int len_bucket mod (nr * bs)) mod (nr * bs)))"

fun count_loop :: "int \<Rightarrow> int \<Rightarrow> nat list list \<Rightarrow> error + int list" where
  "count_loop nr bs [] = Inr []"
| "count_loop nr bs (bucket # rest) =
     (case padded_count nr bs (length bucket) of
        Inl e \<Rightarrow> Inl e
      | Inr c \<Rightarrow> (case count_loop nr bs rest of Inl e \<Rightarrow> Inl e | Inr cs \<Rightarrow> Inr (c # cs)))"

text \<open>
  The whole method, on the value of \<open>self.boundaries\<close>: it returns the boundary list as
  the method leaves it (pruning mutates it in place) and the method's result.
\<close>

definition create_buckets ::
  "int list \<Rightarrow> int list \<Rightarrow> int \<Rightarrow> int \<Rightarrow> int list \<times> (error + nat list list \<times> int list)" where
  "create_buckets bnds lens nr bs =
     (case classify bnds lens 0 (replicate (length bnds - 1) []) of
        Inl e \<Rightarrow> (bnds, Inl e)
      | Inr bkts0 \<Rightarrow>
          (case prune_loop (length bkts0 - 1) bkts0 bnds of
             (bnds', Inl e) \<Rightarrow> (bnds', Inl e)
           | (bnds', Inr bkts) \<Rightarrow>
               (bnds', case count_loop nr bs bkts of
                         Inl e \<Rightarrow> Inl e
                       | Inr counts \<Rightarrow> Inr (bkts, counts))))"

subsection \<open>The sampler object and \<open>__init__\<close>\<close>

text \<open>
  \<open>self.boundaries\<close> is a reference to the caller's list, which \<open>_create_buckets\<close>
  mutates; the lists live in a store and the sampler holds the address. \<open>self.batches\<close>
  does not exist before the first \<open>__iter__\<close>. The base class
  \<open>torch.utils.data.distributed.DistributedSampler\<close> is not part of the repository: of its
  constructor only the fields the sampler reads are kept (\<open>num_replicas\<close>, \<open>rank\<close>,
  \<open>shuffle\<close>, \<open>epoch = 0\<close>), and \<open>set_epoch\<close> is the assignment of \<open>epoch\<close>.
\<close>

type_synonym ref = nat
type_synonym heap = "ref \<Rightarrow> int list"

record sampler =
  lengths :: "int list"
  batch_size :: int
  boundaries :: ref
  num_replicas :: int
  rank :: int
  shuffle :: bool
  epoch :: int
  buckets :: "nat list list"
  num_samples_per_bucket :: "int list"
  total_size :: int
  num_samples :: int
  batches :: "nat list list option"

definition init ::
  "heap \<Rightarrow> int list \<Rightarrow> int \<Rightarrow> ref \<Rightarrow> int \<Rightarrow> int \<Rightarrow> bool \<Rightarrow> heap \<times> (error + sampler)" where
  "init h dataset_lengths bs bref nr rk sh =
     (case create_buckets (h bref) dataset_lengths nr bs of
        (bnds', Inl e) \<Rightarrow> (h(bref := bnds'), Inl e)
      | (bnds', Inr (bkts, counts)) \<Rightarrow>
          (h(bref := bnds'),
           if nr = 0 then Inl ZeroDivisionError
           else Inr \<lparr> lengths = dataset_lengths, batch_size = bs, boundaries = bref,
                      num_replicas = nr, rank = rk, shuffle = sh, epoch = 0,
                      buckets = bkts, num_samples_per_bucket = counts,
                      total_size = sum_list counts,
                      num_samples = sum_list counts div nr,
                      batches = None \<rparr>))"

definition set_epoch :: "int \<Rightarrow> sampler \<Rightarrow> sampler" where
  "set_epoch e s = s\<lparr>epoch := e\<rparr>"

subsection \<open>\<open>__iter__\<close>\<close>

text \<open>
  \<open>torch.Generator\<close> is outside the repository: the generator is a parameter, a seeding
  function and a \<open>randperm\<close> that returns the drawn list and the advanced generator state.
\<close>

record 'g prng =
  manual_seed :: "int \<Rightarrow> 'g"
  randperm :: "nat \<Rightarrow> 'g \<Rightarrow> nat list \<times> 'g"

text \<open>\<open>for bucket in self.buckets: indices.append(torch.randperm(len(bucket), generator=g).tolist())\<close>\<close>

fun draw_indices :: "'g prng \<Rightarrow> nat list list \<Rightarrow> 'g \<Rightarrow> nat list list \<times> 'g" where
  "draw_indices P [] g = ([], g)"
| "draw_indices P (bucket # rest) g =
     (case randperm P (length bucket) g of
        (p, g') \<Rightarrow> (case draw_indices P rest g' of (ps, g'') \<Rightarrow> (p # ps, g'')))"

text \<open>
  \<open>ids_bucket + ids_bucket * (rem // len_bucket) + ids_bucket[:(rem % len_bucket)]\<close>,
  for \<open>len_bucket > 0\<close>: a list times a non-positive number is empty.
\<close>

definition pad_ids :: "nat list \<Rightarrow> nat \<Rightarrow> int \<Rightarrow> nat list" where
  "pad_ids ids_bucket len_bucket rem =
     ids_bucket @ concat (replicate (nat (rem div int len_bucket)) ids_bucket)
       @ take (nat (rem mod int len_bucket)) ids_bucket"

text \<open>
  \<open>xs[start::step]\<close>: the positions an extended slice with no stop takes from a list of
  length \<open>n\<close>, as the interpreter adjusts them.
\<close>

definition slice_positions :: "nat \<Rightarrow> int \<Rightarrow> int \<Rightarrow> error + nat list" where
  "slice_positions n start step =
     (if step = 0 then Inl ValueError
      else if step > 0 then
        (let s = (if start < 0 then max 0 (start + int n) else min start (int n))
         in Inr (map (\<lambda>k. nat (s + int k * step)) [0 ..< nat ((int n - s + step - 1) div step)]))
      else
        (let s = (if start < 0 then max (- 1) (start + int n) else min start (int n - 1))
         in Inr (map (\<lambda>k. nat (s + int k * step)) [0 ..< nat ((s - step) div (- step))])))"

definition subsample :: "'a list \<Rightarrow> int \<Rightarrow> int \<Rightarrow> error + 'a list" where
  "subsample xs start step =
     (case slice_positions (length xs) start step of
        Inl e \<Rightarrow> Inl e
      | Inr ps \<Rightarrow> Inr (map (\<lambda>p. xs ! p) ps))"

text \<open>\<open>[xs[i] for i in ids]\<close> for indices that are not negative.\<close>

fun gather :: "'a list \<Rightarrow> nat list \<Rightarrow> error + 'a list" where
  "gather xs [] = Inr []"
| "gather xs (i # rest) =
     (if i < length xs
      then (case gather xs rest of Inl e \<Rightarrow> Inl e | Inr ys \<Rightarrow> Inr (xs ! i # ys))
      else Inl IndexError)"

text \<open>The results of the iterations of a loop, up to the first one that raises.\<close>

fun collect :: "(error + 'a) list \<Rightarrow> error + 'a list" where
  "collect [] = Inr []"
| "collect (r # rs) =
     (case r of
        Inl e \<Rightarrow> Inl e
      | Inr v \<Rightarrow> (case collect rs of Inl e \<Rightarrow> Inl e | Inr vs \<Rightarrow> Inr (v # vs)))"

text \<open>
  \<^verbatim>\<open>
  for j in range(len(ids_bucket) // self.batch_size):
      batch = [bucket[idx] for idx in ids_bucket[j * self.batch_size:(j + 1) * self.batch_size]]
      batches.append(batch)
  \<close>
  The body runs only for a positive \<open>batch_size\<close>, where the slice is \<open>take\<close> after
  \<open>drop\<close>.
\<close>

definition batching :: "nat list \<Rightarrow> nat list \<Rightarrow> int \<Rightarrow> error + nat list list" where
  "batching bucket ids_bucket bs =
     (if bs = 0 then Inl ZeroDivisionError
      else collect (map (\<lambda>j. gather bucket (take (nat bs) (drop (j * nat bs) ids_bucket)))
                        [0 ..< nat (int (length ids_bucket) div bs)]))"

text \<open>
  One iteration of \<open>for i in range(len(self.buckets))\<close>: the batches it appends.
  \<open>indices\<close> has one entry for each bucket, so \<open>indices[i]\<close> is in range.
\<close>

definition bucket_batches :: "sampler \<Rightarrow> nat list list \<Rightarrow> nat \<Rightarrow> error + nat list list" where
  "bucket_batches s indices i =
     (if length (buckets s ! i) = 0 then Inr []
      else
        (case py_get (num_samples_per_bucket s) (int i) of
           Inl e \<Rightarrow> Inl e
         | Inr num_samples_bucket \<Rightarrow>
             (case subsample
                     (pad_ids (indices ! i) (length (buckets s ! i))
                        (num_samples_bucket - int (length (buckets s ! i))))
                     (rank s) (num_replicas s) of
                Inl e \<Rightarrow> Inl e
              | Inr ids_bucket \<Rightarrow> batching (buckets s ! i) ids_bucket (batch_size s))))"

definition all_indices :: "'g prng \<Rightarrow> sampler \<Rightarrow> nat list list \<times> 'g" where
  "all_indices P s =
     (if shuffle s then draw_indices P (buckets s) (manual_seed P (epoch s))
      else (map (\<lambda>bucket. [0 ..< length bucket]) (buckets s), manual_seed P (epoch s)))"

definition bucket_loop :: "sampler \<Rightarrow> nat list list \<Rightarrow> error + nat list list" where
  "bucket_loop s indices =
     (case collect (map (bucket_batches s indices) [0 ..< length (buckets s)]) of
        Inl e \<Rightarrow> Inl e
      | Inr bbs \<Rightarrow> Inr (concat bbs))"

text \<open>
  \<^verbatim>\<open>
  if self.shuffle:
      batch_ids = torch.randperm(len(batches), generator=g).tolist()
      batches = [batches[i] for i in batch_ids]
  self.batches = batches
  assert len(self.batches) * self.batch_size == self.num_samples
  return iter(self.batches)
  \<close>
  \<open>iter\<close> returns the sampler as the call leaves it and the batches or the exception;
  \<open>self.batches\<close> is assigned before the assertion.
\<close>

definition iter :: "'g prng \<Rightarrow> sampler \<Rightarrow> sampler \<times> (error + nat list list)" where
  "iter P s =
     (case all_indices P s of
        (indices, g1) \<Rightarrow>
          (case bucket_loop s indices of
             Inl e \<Rightarrow> (s, Inl e)
           | Inr bt0 \<Rightarrow>
               (case (if shuffle s then gather bt0 (fst (randperm P (length bt0) g1)) else Inr bt0) of
                  Inl e \<Rightarrow> (s, Inl e)
                | Inr bt \<Rightarrow>
                    (s\<lparr>batches := Some bt\<rparr>,
                     if int (length bt) * batch_size s = num_samples s then Inr bt
                     else Inl AssertionError))))"

subsection \<open>Auxiliary notions for the statements\<close>

text \<open>
  \<open>members bnds lens k\<close>: the samples, in dataset order, that the binary search sends to
  interval \<open>k\<close>. \<open>classes\<close>: one such list for each interval. \<open>pruned\<close>: the buckets that
  the pruning loop keeps, which are the first one and the non-empty later ones.
  \<open>padded\<close>: the padded count of a bucket.
\<close>

definition members :: "int list \<Rightarrow> int list \<Rightarrow> nat \<Rightarrow> nat list" where
  "members bnds lens k = filter (\<lambda>j. bisect_default bnds (lens ! j) = Inr (int k)) [0 ..< length lens]"

definition classes :: "int list \<Rightarrow> int list \<Rightarrow> nat list list" where
  "classes bnds lens = map (members bnds lens) [0 ..< length bnds - 1]"

definition pruned :: "'a list list \<Rightarrow> 'a list list" where
  "pruned bkts = take 1 bkts @ filter (\<lambda>b. b \<noteq> []) (drop 1 bkts)"

definition padded :: "int \<Rightarrow> int \<Rightarrow> nat list \<Rightarrow> int" where
  "padded nr bs b = int (length b) + (nr * bs - int (length b) mod (nr * bs)) mod (nr * bs)"

text \<open>
  What the statements ask of \<open>torch.randperm\<close>: the list drawn for \<open>n\<close> is a permutation
  of \<open>0, ..., n - 1\<close>, whatever the generator state. \<open>example_prng\<close> is a small generator
  of this kind, for concrete runs: the state counts the draws and a draw rotates the
  identity by the state.
\<close>

definition valid_prng :: "'g prng \<Rightarrow> bool" where
  "valid_prng P \<longleftrightarrow> (\<forall>n g. mset (fst (randperm P n g)) = mset [0 ..< n])"

definition example_prng :: "nat prng" where
  "example_prng = \<lparr> manual_seed = (\<lambda>e. nat \<bar>e\<bar>), randperm = (\<lambda>n g. (rotate g [0 ..< n], Suc g)) \<rparr>"

text \<open>
  \<open>shard xs R N\<close>: the entries of \<open>xs\<close> at the positions \<open>R, R + N, R + 2 * N, ...\<close>.
  \<open>padded_ids\<close>: the padded position list of bucket \<open>i\<close>, the value of \<open>ids_bucket\<close>
  before the subsampling; \<open>padded_tile\<close>: the same list as sample indices.
  \<open>bb\<close>: the batches that the shard of bucket \<open>i\<close> is cut into; \<open>unshuffled\<close>: the batches
  of all buckets, in bucket order.
\<close>

definition shard :: "'a list \<Rightarrow> nat \<Rightarrow> nat \<Rightarrow> 'a list" where
  "shard xs R N = map (\<lambda>k. xs ! (R + k * N)) [0 ..< (length xs + N - 1 - R) div N]"

definition padded_ids :: "sampler \<Rightarrow> nat list list \<Rightarrow> nat \<Rightarrow> nat list" where
  "padded_ids s indices i =
     pad_ids (indices ! i) (length (buckets s ! i))
       (num_samples_per_bucket s ! i - int (length (buckets s ! i)))"

definition padded_tile :: "sampler \<Rightarrow> nat list list \<Rightarrow> nat \<Rightarrow> nat list" where
  "padded_tile s indices i = map (\<lambda>x. buckets s ! i ! x) (padded_ids s indices i)"

definition bb :: "sampler \<Rightarrow> nat list list \<Rightarrow> nat \<Rightarrow> nat list list" where
  "bb s indices i =
     map (\<lambda>j. map (\<lambda>x. buckets s ! i ! x)
                (take (nat (batch_size s))
                   (drop (j * nat (batch_size s))
                      (shard (padded_ids s indices i) (nat (rank s)) (nat (num_replicas s))))))
         [0 ..< length (shard (padded_ids s indices i) (nat (rank s)) (nat (num_replicas s)))
                  div nat (batch_size s)]"

definition unshuffled :: "'g prng \<Rightarrow> sampler \<Rightarrow> nat list list" where
  "unshuffled P s = concat (map (bb s (fst (all_indices P s))) [0 ..< length (buckets s)])"

text \<open>
  \<open>ready\<close>: the fields as \<open>__init__\<close> leaves them for a positive batch size and a rank
  among the replicas. \<open>perms_of\<close>: one permutation of the bucket's positions for each
  bucket.
\<close>

definition ready :: "sampler \<Rightarrow> bool" where
  "ready s \<longleftrightarrow>
     0 < num_replicas s \<and> 0 \<le> rank s \<and> rank s < num_replicas s \<and> 0 < batch_size s
     \<and> num_samples_per_bucket s = map (padded (num_replicas s) (batch_size s)) (buckets s)
     \<and> num_samples s = sum_list (num_samples_per_bucket s) div num_replicas s"

definition perms_of :: "nat list list \<Rightarrow> sampler \<Rightarrow> bool" where
  "perms_of indices s \<longleftrightarrow>
     length indices = length (buckets s)
     \<and> (\<forall>i < length (buckets s). mset (indices ! i) = mset [0 ..< length (buckets s ! i)])"

section \<open>Properties\<close>

subsection \<open>The binary search\<close>

lemma py_get_in_range:
  "0 \<le> i \<Longrightarrow> i < int (length xs) \<Longrightarrow> py_get xs i = Inr (xs ! nat i)"
  by (simp add: py_get_def py_index_def)

declare bisect.simps [simp del]


lemma bisect_empty: "\<not> lo < hi \<Longrightarrow> bisect bnds x lo hi = Inr (- 1)"
  by (subst bisect.simps) simp

lemma bisect_hit:
  assumes "lo < hi" "0 \<le> lo" "hi \<le> int (length bnds) - 1"
    and "bnds ! nat ((hi + lo) div 2) < x" "x \<le> bnds ! nat ((hi + lo) div 2 + 1)"
  shows "bisect bnds x lo hi = Inr ((hi + lo) div 2)"
proof -
  have g0: "py_get bnds ((hi + lo) div 2) = Inr (bnds ! nat ((hi + lo) div 2))"
    using assms(1-3) by (intro py_get_in_range) auto
  have g1: "py_get bnds ((hi + lo) div 2 + 1) = Inr (bnds ! nat ((hi + lo) div 2 + 1))"
    using assms(1-3) by (intro py_get_in_range) auto
  show ?thesis using assms(1,4,5) g0 g1 by (subst bisect.simps) simp
qed

lemma bisect_right:
  assumes "lo < hi" "0 \<le> lo" "hi \<le> int (length bnds) - 1"
    and "bnds ! nat ((hi + lo) div 2) < x" "\<not> x \<le> bnds ! nat ((hi + lo) div 2 + 1)"
  shows "bisect bnds x lo hi = bisect bnds x ((hi + lo) div 2 + 1) hi"
proof -
  have g0: "py_get bnds ((hi + lo) div 2) = Inr (bnds ! nat ((hi + lo) div 2))"
    using assms(1-3) by (intro py_get_in_range) auto
  have g1: "py_get bnds ((hi + lo) div 2 + 1) = Inr (bnds ! nat ((hi + lo) div 2 + 1))"
    using assms(1-3) by (intro py_get_in_range) auto
  show ?thesis using assms(1,4,5) g0 g1 by (subst bisect.simps) simp
qed

lemma bisect_left:
  assumes "lo < hi" "0 \<le> lo" "hi \<le> int (length bnds) - 1"
    and "\<not> bnds ! nat ((hi + lo) div 2) < x"
  shows "bisect bnds x lo hi = bisect bnds x lo ((hi + lo) div 2)"
proof -
  have g0: "py_get bnds ((hi + lo) div 2) = Inr (bnds ! nat ((hi + lo) div 2))"
    using assms(1-3) by (intro py_get_in_range) auto
  show ?thesis using assms(1,4) g0 by (subst bisect.simps) simp
qed

lemma bisect_range:
  "0 \<le> lo \<Longrightarrow> hi \<le> int (length bnds) - 1 \<Longrightarrow>
   \<exists>r. bisect bnds x lo hi = Inr r \<and>
       (r = - 1 \<or> (lo \<le> r \<and> r < hi \<and> bnds ! nat r < x \<and> x \<le> bnds ! nat (r + 1)))"
proof (induction "nat (hi - lo)" arbitrary: lo hi rule: less_induct)
  case less
  let ?mid = "(hi + lo) div 2"
  show ?case
  proof (cases "lo < hi")
    case False
    then show ?thesis by (simp add: bisect_empty)
  next
    case True
    then have mid: "lo \<le> ?mid" "?mid < hi" by auto
    consider (hit) "bnds ! nat ?mid < x" "x \<le> bnds ! nat (?mid + 1)"
      | (right) "bnds ! nat ?mid < x" "\<not> x \<le> bnds ! nat (?mid + 1)"
      | (left) "\<not> bnds ! nat ?mid < x"
      by blast
    then show ?thesis
    proof cases
      case hit
      then show ?thesis using bisect_hit[OF True less.prems hit] mid by simp
    next
      case right
      have "nat (hi - (?mid + 1)) < nat (hi - lo)" using mid by simp
      from less.hyps[OF this] less.prems mid
      obtain r where "bisect bnds x (?mid + 1) hi = Inr r"
        "r = - 1 \<or> (?mid + 1 \<le> r \<and> r < hi \<and> bnds ! nat r < x \<and> x \<le> bnds ! nat (r + 1))"
        by fastforce
      then show ?thesis using bisect_right[OF True less.prems right] mid by auto
    next
      case left
      have "nat (?mid - lo) < nat (hi - lo)" using mid by simp
      from less.hyps[OF this] less.prems mid
      obtain r where "bisect bnds x lo ?mid = Inr r"
        "r = - 1 \<or> (lo \<le> r \<and> r < ?mid \<and> bnds ! nat r < x \<and> x \<le> bnds ! nat (r + 1))"
        by fastforce
      then show ?thesis using bisect_left[OF True less.prems left] mid by auto
    qed
  qed
qed

lemma bisect_complete:
  "sorted bnds \<Longrightarrow> 0 \<le> lo \<Longrightarrow> hi \<le> int (length bnds) - 1 \<Longrightarrow> lo \<le> int k \<Longrightarrow> int k < hi \<Longrightarrow>
   bnds ! k < x \<Longrightarrow> x \<le> bnds ! Suc k \<Longrightarrow> bisect bnds x lo hi = Inr (int k)"
proof (induction "nat (hi - lo)" arbitrary: lo hi rule: less_induct)
  case less
  let ?mid = "(hi + lo) div 2"
  have lohi: "lo < hi" using less.prems by simp
  then have mid: "lo \<le> ?mid" "?mid < hi" by auto
  have bnd: "0 \<le> lo" "hi \<le> int (length bnds) - 1" using less.prems by auto
  have mono: "\<And>i j. i \<le> j \<Longrightarrow> j < length bnds \<Longrightarrow> bnds ! i \<le> bnds ! j"
    using less.prems(1) by (simp add: sorted_nth_mono)
  consider (hit) "bnds ! nat ?mid < x" "x \<le> bnds ! nat (?mid + 1)"
    | (right) "bnds ! nat ?mid < x" "\<not> x \<le> bnds ! nat (?mid + 1)"
    | (left) "\<not> bnds ! nat ?mid < x"
    by blast
  then show ?case
  proof cases
    case hit
    have "\<not> k < nat ?mid"
    proof
      assume "k < nat ?mid"
      then have "bnds ! Suc k \<le> bnds ! nat ?mid" using mid bnd by (intro mono) auto
      with hit less.prems show False by simp
    qed
    moreover have "\<not> nat ?mid < k"
    proof
      assume "nat ?mid < k"
      then have "bnds ! nat (?mid + 1) \<le> bnds ! k" using mid bnd less.prems by (intro mono) auto
      with hit less.prems show False by simp
    qed
    ultimately have "int k = ?mid" using mid bnd by auto
    then show ?thesis using bisect_hit[OF lohi bnd hit] by simp
  next
    case right
    have "\<not> k \<le> nat ?mid"
    proof
      assume "k \<le> nat ?mid"
      then have "bnds ! Suc k \<le> bnds ! nat (?mid + 1)" using mid bnd by (intro mono) auto
      with right less.prems show False by simp
    qed
    then have k: "?mid + 1 \<le> int k" by auto
    have "nat (hi - (?mid + 1)) < nat (hi - lo)" using mid by simp
    from less.hyps[OF this less.prems(1) _ bnd(2) k less.prems(5,6,7)] mid bnd
    have "bisect bnds x (?mid + 1) hi = Inr (int k)" by simp
    then show ?thesis using bisect_right[OF lohi bnd right] by simp
  next
    case left
    have "\<not> nat ?mid \<le> k"
    proof
      assume "nat ?mid \<le> k"
      then have "bnds ! nat ?mid \<le> bnds ! k" using mid bnd less.prems by (intro mono) auto
      with left less.prems show False by simp
    qed
    then have k: "int k < ?mid" by auto
    have "nat (?mid - lo) < nat (hi - lo)" using mid by simp
    from less.hyps[OF this less.prems(1) bnd(1) _ less.prems(4) k less.prems(6,7)] mid bnd
    have "bisect bnds x lo ?mid = Inr (int k)" by simp
    then show ?thesis using bisect_left[OF lohi bnd left] by simp
  qed
qed

lemma bisect_default_total:
  "\<exists>r. bisect_default bnds x = Inr r \<and>
       (r = - 1 \<or> (0 \<le> r \<and> r < int (length bnds) - 1 \<and> bnds ! nat r < x \<and> x \<le> bnds ! nat (r + 1)))"
  unfolding bisect_default_def using bisect_range[of 0 "int (length bnds) - 1" bnds x] by simp

lemma bisect_default_iff:
  assumes "sorted bnds" "Suc k < length bnds"
  shows "bisect_default bnds x = Inr (int k) \<longleftrightarrow> bnds ! k < x \<and> x \<le> bnds ! Suc k"
proof
  assume "bisect_default bnds x = Inr (int k)"
  with bisect_default_total[of bnds x] show "bnds ! k < x \<and> x \<le> bnds ! Suc k"
    by (auto simp: nat_add_distrib)
next
  assume "bnds ! k < x \<and> x \<le> bnds ! Suc k"
  then show "bisect_default bnds x = Inr (int k)"
    unfolding bisect_default_def using assms by (intro bisect_complete) auto
qed


text \<open>
  C10. The recursive binary search is a total function (its termination is proved with
  the measure \<open>hi - lo\<close>, which every recursive call decreases), and for bounds with
  \<open>0 \<le> lo \<le> hi \<le> len(bnds) - 1\<close> it raises nothing and returns \<open>-1\<close> or an
  index \<open>mid\<close> with \<open>lo \<le> mid < hi\<close>.
\<close>

theorem bisect_returns_in_range:
  "0 \<le> lo \<Longrightarrow> lo \<le> hi \<Longrightarrow> hi \<le> int (length bnds) - 1 \<Longrightarrow>
   \<exists>r. bisect bnds x lo hi = Inr r \<and> (r = - 1 \<or> (lo \<le> r \<and> r < hi))"
  using bisect_range[of lo hi bnds x] by auto

theorem bisect_returns_in_range_witness:
  "(0::int) \<le> 0 \<and> (0::int) \<le> 2 \<and> (2::int) \<le> int (length [32, 300, 1000 :: int]) - 1 \<and>
   (\<exists>r. bisect [32, 300, 1000] 500 0 2 = Inr r \<and> (r = - 1 \<or> (0 \<le> r \<and> r < 2)))"
  using bisect_returns_in_range [of 0 2 "[32, 300, 1000]" 500] by simp

subsection \<open>Construction\<close>

lemma members_snoc:
  "members bnds (lens @ [x]) k =
     members bnds lens k @ (if bisect_default bnds x = Inr (int k) then [length lens] else [])"
proof -
  have "filter (\<lambda>j. bisect_default bnds ((lens @ [x]) ! j) = Inr (int k)) [0 ..< length lens]
        = filter (\<lambda>j. bisect_default bnds (lens ! j) = Inr (int k)) [0 ..< length lens]"
    by (rule filter_cong) (auto simp: nth_append)
  then show ?thesis by (simp add: members_def)
qed

lemma classify_append:
  "classify bnds (xs @ ys) i bkts =
     (case classify bnds xs i bkts of Inl e \<Rightarrow> Inl e | Inr b \<Rightarrow> classify bnds ys (i + length xs) b)"
  by (induction xs arbitrary: i bkts) (auto split: sum.splits)

lemma classify_step:
  assumes "n = length bnds - 1"
  shows "classify bnds [x] m (map f [0 ..< n]) =
         Inr (map (\<lambda>k. f k @ (if bisect_default bnds x = Inr (int k) then [m] else [])) [0 ..< n])"
proof -
  obtain r where r: "bisect_default bnds x = Inr r"
    and rr: "r = - 1 \<or> (0 \<le> r \<and> r < int (length bnds) - 1)"
    using bisect_default_total[of bnds x] by blast
  show ?thesis
  proof (cases "r = - 1")
    case True
    then show ?thesis using r by simp
  next
    case False
    with rr have rng: "0 \<le> r" "r < int n" using assms by auto
    then have ix: "py_index (length (map f [0 ..< n])) r = Inr (nat r)"
      by (simp add: py_index_def)
    have "(map f [0 ..< n])[nat r := map f [0 ..< n] ! nat r @ [m]]
          = map (\<lambda>k. f k @ (if Inr r = (Inr (int k) :: error + int) then [m] else [])) [0 ..< n]"
      using rng by (intro nth_equalityI) (auto simp: nth_list_update)
    then show ?thesis using r False ix by simp
  qed
qed

lemma classify_eq:
  "n = length bnds - 1 \<Longrightarrow>
   classify bnds lens 0 (replicate n []) = Inr (map (members bnds lens) [0 ..< n])"
proof (induction lens rule: rev_induct)
  case Nil
  have "replicate n ([]::nat list) = map (members bnds []) [0 ..< n]"
    by (intro nth_equalityI) (auto simp: members_def)
  then show ?case by simp
next
  case (snoc x lens)
  then show ?case
    by (simp add: classify_append classify_step members_snoc del: classify.simps)
qed

lemma pop_at_length: "i < length xs \<Longrightarrow> length (pop_at xs i) = length xs - 1"
  by (simp add: pop_at_def)

lemma prune_loop_result:
  "length bnds = Suc (length bkts) \<Longrightarrow> k < length bkts \<or> k = 0 \<Longrightarrow>
   \<exists>bnds'. prune_loop k bkts bnds =
             (bnds', Inr (take 1 bkts @ filter (\<lambda>b. b \<noteq> []) (take k (drop 1 bkts)) @ drop (Suc k) bkts))
          \<and> length bnds' =
             Suc (length (take 1 bkts @ filter (\<lambda>b. b \<noteq> []) (take k (drop 1 bkts)) @ drop (Suc k) bkts))"
proof (induction k arbitrary: bkts bnds)
  case 0
  have "take 1 bkts @ drop (Suc 0) bkts = bkts"
    by (metis One_nat_def append_take_drop_id)
  then show ?case using 0 by simp
next
  case (Suc k)
  then have k: "Suc k < length bkts" by simp
  have split: "take (Suc k) (drop 1 bkts) = take k (drop 1 bkts) @ [bkts ! Suc k]"
    using k by (simp add: take_Suc_conv_app_nth)
  show ?case
  proof (cases "bkts ! Suc k = []")
    case False
    have d: "drop (Suc k) bkts = bkts ! Suc k # drop (Suc (Suc k)) bkts"
      using k by (simp add: Cons_nth_drop_Suc)
    let ?R = "take 1 bkts @ filter (\<lambda>b. b \<noteq> []) (take k (drop 1 bkts)) @ drop (Suc k) bkts"
    have "k < length bkts \<or> k = 0" using k by simp
    from Suc.IH[OF Suc.prems(1) this]
    obtain bnds' where "prune_loop k bkts bnds = (bnds', Inr ?R)" "length bnds' = Suc (length ?R)"
      by blast
    then show ?thesis using False k split d by simp
  next
    case True
    let ?b = "pop_at bkts (Suc k)" and ?n = "pop_at bnds (Suc k + 1)"
    have len: "length ?n = Suc (length ?b)" using Suc.prems k by (simp add: pop_at_def)
    have "length ?b = length bkts - 1" using k by (simp add: pop_at_length)
    then have kk: "k < length ?b \<or> k = 0" using k by arith
    have t1: "take 1 ?b = take 1 bkts" using k by (simp add: pop_at_def)
    have t2: "take k (drop 1 ?b) = take k (drop 1 bkts)" using k by (simp add: pop_at_def drop_take)
    have t3: "drop (Suc k) ?b = drop (Suc (Suc k)) bkts" using k by (simp add: pop_at_def)
    let ?R = "take 1 bkts @ filter (\<lambda>b. b \<noteq> []) (take k (drop 1 bkts)) @ drop (Suc (Suc k)) bkts"
    have "\<exists>bnds'. prune_loop k ?b ?n = (bnds', Inr ?R) \<and> length bnds' = Suc (length ?R)"
      using Suc.IH[OF len kk] unfolding t1 t2 t3 .
    then obtain bnds' where "prune_loop k ?b ?n = (bnds', Inr ?R)" "length bnds' = Suc (length ?R)"
      by blast
    then show ?thesis using True k split Suc.prems by simp
  qed
qed

lemma prune_loop_all:
  assumes "length bnds = Suc (length bkts)"
  shows "\<exists>bnds'. prune_loop (length bkts - 1) bkts bnds = (bnds', Inr (pruned bkts))
           \<and> length bnds' = Suc (length (pruned bkts))"
proof -
  have "take (length bkts - 1) (drop 1 bkts) = drop 1 bkts" by simp
  moreover have "drop (Suc (length bkts - 1)) bkts = []" by simp
  moreover have "length bkts - 1 < length bkts \<or> length bkts - 1 = 0" by auto
  ultimately show ?thesis
    using prune_loop_result[OF assms, of "length bkts - 1"] by (simp add: pruned_def)
qed

lemma padded_count_eq:
  "padded_count nr bs (length b) = (if nr * bs = 0 then Inl ZeroDivisionError else Inr (padded nr bs b))"
  unfolding padded_count_def padded_def ..

lemma count_loop_eq:
  "count_loop nr bs bkts =
     (if nr * bs = 0 \<and> bkts \<noteq> [] then Inl ZeroDivisionError
      else Inr (map (padded nr bs) bkts))"
  by (induction bkts) (auto simp: padded_count_eq)

lemma classify_classes:
  "classify bnds lens 0 (replicate (length bnds - 1) []) = Inr (classes bnds lens)"
  unfolding classes_def by (rule classify_eq) simp

lemma create_buckets_eq:
  "\<exists>bnds'. create_buckets bnds lens nr bs =
      (bnds', case count_loop nr bs (pruned (classes bnds lens)) of
                Inl e \<Rightarrow> Inl e
              | Inr counts \<Rightarrow> Inr (pruned (classes bnds lens), counts))
    \<and> (if bnds = [] then bnds' = [] else length bnds' = Suc (length (pruned (classes bnds lens))))"
proof (cases "bnds = []")
  case True
  then have e: "classes bnds lens = []" by (simp add: classes_def)
  have p: "prune_loop (length (classes bnds lens) - 1) (classes bnds lens) bnds = ([], Inr [])"
    using True e by simp
  have "create_buckets bnds lens nr bs =
      ([], case count_loop nr bs [] of
                Inl e \<Rightarrow> Inl e
              | Inr counts \<Rightarrow> Inr ([], counts))"
    unfolding create_buckets_def classify_classes sum.case p prod.case ..
  then show ?thesis using True e by (simp add: pruned_def)
next
  case False
  then have "length bnds = Suc (length (classes bnds lens))" by (simp add: classes_def)
  from prune_loop_all[OF this] obtain bnds' where
    p: "prune_loop (length (classes bnds lens) - 1) (classes bnds lens) bnds = (bnds', Inr (pruned (classes bnds lens)))"
    and l: "length bnds' = Suc (length (pruned (classes bnds lens)))"
    by blast
  have "create_buckets bnds lens nr bs =
      (bnds', case count_loop nr bs (pruned (classes bnds lens)) of
                Inl e \<Rightarrow> Inl e
              | Inr counts \<Rightarrow> Inr (pruned (classes bnds lens), counts))"
    unfolding create_buckets_def classify_classes sum.case p prod.case ..
  then show ?thesis using False l by simp
qed

lemma create_buckets_snd:
  "snd (create_buckets bnds lens nr bs) =
     (case count_loop nr bs (pruned (classes bnds lens)) of
        Inl e \<Rightarrow> Inl e
      | Inr counts \<Rightarrow> Inr (pruned (classes bnds lens), counts))"
  using create_buckets_eq[of bnds lens nr bs] by auto

lemma create_buckets_fst_length:
  "bnds \<noteq> [] \<Longrightarrow> length (fst (create_buckets bnds lens nr bs)) = Suc (length (pruned (classes bnds lens)))"
  using create_buckets_eq[of bnds lens nr bs] by auto


lemma pruned_Nil_iff: "pruned bkts = [] \<longleftrightarrow> bkts = []"
  by (cases bkts) (auto simp: pruned_def)

lemma classes_length: "length (classes bnds lens) = length bnds - 1"
  by (simp add: classes_def)

lemma pad_sum_multiple:
  fixes t :: int
  shows "l + (t - l mod t) = (l div t + 1) * t"
proof -
  have "l = l div t * t + l mod t" by simp
  then have "l - l mod t = l div t * t" by linarith
  then show ?thesis by (simp add: algebra_simps)
qed

lemma padded_mod: "padded nr bs b mod (nr * bs) = 0"
proof -
  let ?t = "nr * bs" and ?l = "int (length b)"
  have "(?l + (?t - ?l mod ?t) mod ?t) mod ?t = (?l + (?t - ?l mod ?t)) mod ?t"
    by (rule mod_add_right_eq)
  also have "\<dots> = ((?l div ?t + 1) * ?t) mod ?t" by (simp only: pad_sum_multiple)
  also have "\<dots> = 0" by simp
  finally show ?thesis unfolding padded_def .
qed

lemma init_snd:
  "snd (init h lens bs a nr rk sh) =
     (if nr = 0 \<or> (bs = 0 \<and> 2 \<le> length (h a)) then Inl ZeroDivisionError
      else Inr \<lparr> lengths = lens, batch_size = bs, boundaries = a,
                 num_replicas = nr, rank = rk, shuffle = sh, epoch = 0,
                 buckets = pruned (classes (h a) lens),
                 num_samples_per_bucket = map (padded nr bs) (pruned (classes (h a) lens)),
                 total_size = sum_list (map (padded nr bs) (pruned (classes (h a) lens))),
                 num_samples = sum_list (map (padded nr bs) (pruned (classes (h a) lens))) div nr,
                 batches = None \<rparr>)"
proof -
  obtain bnds' where c: "create_buckets (h a) lens nr bs =
      (bnds', case count_loop nr bs (pruned (classes (h a) lens)) of
                Inl e \<Rightarrow> Inl e
              | Inr counts \<Rightarrow> Inr (pruned (classes (h a) lens), counts))"
    using create_buckets_eq[of "h a" lens nr bs] by blast
  have e: "pruned (classes (h a) lens) = [] \<longleftrightarrow> \<not> 2 \<le> length (h a)"
    using classes_length[of "h a" lens] by (auto simp: pruned_Nil_iff)
  show ?thesis
    unfolding init_def c by (auto simp: count_loop_eq e)
qed

lemma init_fst:
  "fst (init h lens bs a nr rk sh) = h(a := fst (create_buckets (h a) lens nr bs))"
  unfolding init_def by (auto split: prod.splits sum.splits)

text \<open>
  C4. For a constructed sampler every \<open>num_samples_per_bucket[i]\<close> is
  \<open>len(buckets[i]) + ((num_replicas*batch_size - len(buckets[i]) % (num_replicas*batch_size))
  % (num_replicas*batch_size))\<close>, and it is a multiple of \<open>num_replicas*batch_size\<close>.
\<close>

theorem padded_count_multiple:
  "snd (init h lens bs a nr rk sh) = Inr s \<Longrightarrow>
   length (num_samples_per_bucket s) = length (buckets s) \<and>
   (\<forall>i < length (buckets s).
      num_samples_per_bucket s ! i =
        int (length (buckets s ! i)) +
          (num_replicas s * batch_size s - int (length (buckets s ! i)) mod (num_replicas s * batch_size s))
             mod (num_replicas s * batch_size s)
      \<and> num_samples_per_bucket s ! i mod (num_replicas s * batch_size s) = 0)"
proof -
  assume a: "snd (init h lens bs a nr rk sh) = Inr s"
  let ?B = "pruned (classes (h a) lens)"
  from a have ok: "nr \<noteq> 0" "bs \<noteq> 0 \<or> \<not> 2 \<le> length (h a)"
    by (auto simp: init_snd split: if_splits)
  from a ok have f: "buckets s = ?B" "num_samples_per_bucket s = map (padded nr bs) ?B"
    "num_replicas s = nr" "batch_size s = bs"
    by (auto simp: init_snd)
  have "\<And>i. i < length ?B \<Longrightarrow> map (padded nr bs) ?B ! i =
          int (length (?B ! i)) + (nr * bs - int (length (?B ! i)) mod (nr * bs)) mod (nr * bs)"
    by (simp add: padded_def)
  moreover have "\<And>i. i < length ?B \<Longrightarrow> map (padded nr bs) ?B ! i mod (nr * bs) = 0"
    by (simp add: padded_mod)
  ultimately show ?thesis
    unfolding f by simp
qed

theorem padded_count_multiple_witness:
  "let s = \<lparr> lengths = [10, 50, 500, 1500, 40, 60], batch_size = 2, boundaries = 0,
              num_replicas = 2, rank = 1, shuffle = True, epoch = 0,
              buckets = [[1, 4, 5], [2]], num_samples_per_bucket = [4, 4],
              total_size = 8, num_samples = 4, batches = None \<rparr>
   in snd (init (\<lambda>_. [32, 300, 1000]) [10, 50, 500, 1500, 40, 60] 2 0 2 1 True) = Inr s
    \<and> length (num_samples_per_bucket s) = length (buckets s)
    \<and> num_samples_per_bucket s ! 0 =
          int (length (buckets s ! 0)) +
            (num_replicas s * batch_size s - int (length (buckets s ! 0)) mod (num_replicas s * batch_size s))
               mod (num_replicas s * batch_size s)
    \<and> num_samples_per_bucket s ! 0 mod (num_replicas s * batch_size s) = 0"
proof -
  have i: "snd (init (\<lambda>_. [32, 300, 1000]) [10, 50, 500, 1500, 40, 60] 2 0 2 1 True) =
     Inr \<lparr> lengths = [10, 50, 500, 1500, 40, 60], batch_size = 2, boundaries = 0,
           num_replicas = 2, rank = 1, shuffle = True, epoch = 0,
           buckets = [[1, 4, 5], [2]], num_samples_per_bucket = [4, 4],
           total_size = 8, num_samples = 4, batches = None \<rparr>"
    by code_simp
  show ?thesis unfolding Let_def using padded_count_multiple[OF i] i by simp
qed

lemma length_pruned:
  "length (pruned bkts) + length (filter (\<lambda>b. b = []) (drop 1 bkts)) = length bkts"
proof -
  have "length (filter (\<lambda>b. b \<noteq> []) (drop 1 bkts)) + length (filter (\<lambda>b. b = []) (drop 1 bkts))
        = length (drop 1 bkts)"
    using sum_length_filter_compl[of "\<lambda>b. b \<noteq> []" "drop 1 bkts"] by simp
  moreover have "length (take 1 bkts) + length (drop 1 bkts) = length bkts"
    by (metis append_take_drop_id length_append)
  ultimately show ?thesis by (simp add: pruned_def)
qed

lemma init_frame: "b \<noteq> a \<Longrightarrow> fst (init h lens bs a nr rk sh) b = h b"
  by (simp add: init_fst)

lemma init_boundaries_length:
  "length (fst (init h lens bs a nr rk sh) a) + length (filter (\<lambda>b. b = []) (drop 1 (classes (h a) lens)))
     = length (h a)"
proof (cases "h a = []")
  case True
  then show ?thesis
    using create_buckets_eq[of "h a" lens nr bs] by (auto simp: init_fst classes_def)
next
  case False
  then have "length (fst (init h lens bs a nr rk sh) a) = Suc (length (pruned (classes (h a) lens)))"
    by (simp add: init_fst create_buckets_fst_length)
  moreover have "Suc (length (classes (h a) lens)) = length (h a)"
    using False by (simp add: classes_length)
  ultimately show ?thesis
    using length_pruned[of "classes (h a) lens"] by simp
qed

lemma init_reads_store:
  "h1 a = h2 a \<Longrightarrow> snd (init h1 lens bs a nr rk sh) = snd (init h2 lens bs a nr rk sh)"
  by (simp add: init_snd)

text \<open>
  C9. The sampler keeps the address of the caller's boundary list, construction changes the
  store at that address only, and the list there loses one element for every empty bucket
  that the pruning loop removes (the empty buckets of the classification other than the
  first); this happens whether or not construction then succeeds. A second construction
  from the same address reads the list as the first one left it.
\<close>

theorem boundaries_mutated_in_place:
  "init h lens bs a nr rk sh = (h', r) \<Longrightarrow>
   classify (h a) lens 0 (replicate (length (h a) - 1) []) = Inr bkts0 \<Longrightarrow>
     (\<forall>s. r = Inr s \<longrightarrow> boundaries s = a)
   \<and> (\<forall>b. b \<noteq> a \<longrightarrow> h' b = h b)
   \<and> length (h' a) + length (filter (\<lambda>b. b = []) (drop 1 bkts0)) = length (h a)
   \<and> snd (init h' lens2 bs2 a nr2 rk2 sh2) = snd (init (\<lambda>_. h' a) lens2 bs2 a nr2 rk2 sh2)"
proof -
  assume i: "init h lens bs a nr rk sh = (h', r)"
    and c: "classify (h a) lens 0 (replicate (length (h a) - 1) []) = Inr bkts0"
  have b: "bkts0 = classes (h a) lens" using c classify_classes[of "h a" lens] by simp
  from i have h': "h' = fst (init h lens bs a nr rk sh)" and r: "r = snd (init h lens bs a nr rk sh)"
    by simp_all
  have 1: "\<forall>s. r = Inr s \<longrightarrow> boundaries s = a"
    unfolding r by (auto simp: init_snd split: if_splits)
  have 2: "\<forall>b. b \<noteq> a \<longrightarrow> h' b = h b"
    unfolding h' by (simp add: init_frame)
  have 3: "length (h' a) + length (filter (\<lambda>b. b = []) (drop 1 bkts0)) = length (h a)"
    unfolding h' b by (rule init_boundaries_length)
  have 4: "snd (init h' lens2 bs2 a nr2 rk2 sh2) = snd (init (\<lambda>_. h' a) lens2 bs2 a nr2 rk2 sh2)"
    by (rule init_reads_store) simp
  from 1 2 3 4 show ?thesis by blast
qed

theorem boundaries_mutated_in_place_witness:
  "classify [0, 10, 20, 30] [5] 0 (replicate (length [0, 10, 20, 30 :: int] - 1) []) = Inr [[0], [], []]
   \<and> fst (init (\<lambda>_. [0, 10, 20, 30]) [5] 1 0 1 0 True) 0 = [0, 10]
   \<and> length (fst (init (\<lambda>_. [0, 10, 20, 30]) [5] 1 0 1 0 True) 0)
        + length (filter (\<lambda>b. b = []) (drop 1 [[0], [], [] :: nat list])) = length [0, 10, 20, 30 :: int]
   \<and> snd (init (fst (init (\<lambda>_. [0, 10, 20, 30]) [5] 1 0 1 0 True)) [25] 1 0 1 0 True)
        = snd (init (\<lambda>_. fst (init (\<lambda>_. [0, 10, 20, 30]) [5] 1 0 1 0 True) 0) [25] 1 0 1 0 True)
   \<and> map_sum id buckets (snd (init (fst (init (\<lambda>_. [0, 10, 20, 30]) [5] 1 0 1 0 True)) [25] 1 0 1 0 True))
        = Inr [[]]
   \<and> map_sum id buckets (snd (init (\<lambda>_. [0, 10, 20, 30]) [25] 1 0 1 0 True)) = Inr [[], [0]]"
proof -
  have c: "classify ((\<lambda>_. [0, 10, 20, 30]) (0::nat)) [5] 0
             (replicate (length ((\<lambda>_. [0, 10, 20, 30 :: int]) (0::nat)) - 1) []) = Inr [[0], [], []]"
    by code_simp
  have i: "init (\<lambda>_. [0, 10, 20, 30]) [5] 1 0 1 0 True =
             (fst (init (\<lambda>_. [0, 10, 20, 30]) [5] 1 0 1 0 True),
              snd (init (\<lambda>_. [0, 10, 20, 30]) [5] 1 0 1 0 True))"
    by simp
  have f: "fst (init (\<lambda>_. [0, 10, 20, 30]) [5] 1 0 1 0 True) 0 = [0, 10]"
    by code_simp
  have s1: "map_sum id buckets (snd (init (\<lambda>_. [0, 10]) [25] 1 0 1 0 True)) = Inr [[]]"
    by code_simp
  have s2: "map_sum id buckets (snd (init (\<lambda>_. [0, 10, 20, 30]) [25] 1 0 1 0 True)) = Inr [[], [0]]"
    by code_simp
  show ?thesis
    using boundaries_mutated_in_place[OF i c, of "[25]" 1 1 0 True] c f s1 s2 by simp
qed

text \<open>
  C8, as the code has it. Construction checks nothing about the boundaries and has no
  configuration error: after the base class's constructor it succeeds for every boundary
  list and every dataset when \<open>num_replicas\<close> and \<open>batch_size\<close> are not zero, and the
  only exception its own code raises is \<open>ZeroDivisionError\<close>, when \<open>num_replicas\<close> is
  zero or \<open>batch_size\<close> is zero and there is at least one bucket.
\<close>

theorem init_raises_only_zero_division:
  "(nr \<noteq> 0 \<and> bs \<noteq> 0 \<longrightarrow> (\<exists>s. snd (init h lens bs a nr rk sh) = Inr s))
   \<and> (\<forall>e. snd (init h lens bs a nr rk sh) = Inl e \<longrightarrow>
          e = ZeroDivisionError \<and> (nr = 0 \<or> (bs = 0 \<and> 2 \<le> length (h a))))"
  by (auto simp: init_snd split: if_splits)

theorem init_raises_only_zero_division_witness:
  "(\<exists>s. snd (init (\<lambda>_. [5]) [7] 2 0 1 0 True) = Inr s)
   \<and> snd (init (\<lambda>_. [32, 300]) [7, 500] 0 0 1 0 True) = Inl ZeroDivisionError"
proof -
  have "snd (init (\<lambda>_. [32, 300]) [7, 500] 0 0 1 0 True) = Inl ZeroDivisionError"
    by code_simp
  then show ?thesis
    using init_raises_only_zero_division[of 1 2 "\<lambda>_. [5]" "[7]" 0 0 True] by simp
qed

text \<open>
  Construction succeeds with a single boundary, with boundaries that decrease, and when
  every sample is discarded.
\<close>

theorem init_no_configuration_error_counterexample:
  "length [5 :: int] < 2 \<and> \<not> isl (snd (init (\<lambda>_. [5]) [7] 2 0 1 0 True))
   \<and> \<not> sorted_wrt (<) [3, 1 :: int] \<and> \<not> isl (snd (init (\<lambda>_. [3, 1]) [2] 2 0 1 0 True))
   \<and> buckets (projr (snd (init (\<lambda>_. [32, 300]) [7, 500] 2 0 1 0 True))) = [[]]
   \<and> \<not> isl (snd (init (\<lambda>_. [32, 300]) [7, 500] 2 0 1 0 True))"
  by code_simp

text \<open>
  What the pruning loop does establish: every bucket after the first is non-empty, and a
  non-empty boundary list is left with one entry more than there are buckets.
\<close>

lemma pruned_later_nonempty:
  assumes "0 < i" "i < length (pruned bkts)"
  shows "pruned bkts ! i \<noteq> []"
proof -
  have l: "length (take 1 bkts) \<le> 1" by simp
  then have n: "\<not> i < length (take 1 bkts)" using assms(1) by linarith
  have "pruned bkts ! i = filter (\<lambda>b. b \<noteq> []) (drop 1 bkts) ! (i - length (take 1 bkts))"
    by (simp only: pruned_def nth_append n if_False)
  moreover have "i - length (take 1 bkts) < length (filter (\<lambda>b. b \<noteq> []) (drop 1 bkts))"
    using assms l unfolding pruned_def length_append by linarith
  ultimately have "pruned bkts ! i \<in> set (filter (\<lambda>b. b \<noteq> []) (drop 1 bkts))"
    by (simp only: nth_mem)
  then show ?thesis by simp
qed

lemma constructed_buckets:
  assumes "snd (init h lens bs a nr rk sh) = Inr s"
  shows "\<forall>i. 0 < i \<and> i < length (buckets s) \<longrightarrow> buckets s ! i \<noteq> []"
    and "h a \<noteq> [] \<Longrightarrow> length (fst (init h lens bs a nr rk sh) a) = length (buckets s) + 1"
proof -
  have b: "buckets s = pruned (classes (h a) lens)"
    using assms by (auto simp: init_snd split: if_splits)
  show "\<forall>i. 0 < i \<and> i < length (buckets s) \<longrightarrow> buckets s ! i \<noteq> []"
    unfolding b using pruned_later_nonempty by blast
  show "length (fst (init h lens bs a nr rk sh) a) = length (buckets s) + 1" if "h a \<noteq> []"
    unfolding b using that by (simp add: init_fst create_buckets_fst_length)
qed

text \<open>
  C7. The pruning loop stops before index 0: with boundaries \<open>[32, 300, 1000]\<close> and the
  single length \<open>500\<close> the first interval has no sample, and the constructed sampler keeps
  its empty bucket and all three boundaries.
\<close>

theorem first_bucket_not_pruned:
  "snd (init (\<lambda>_. [32, 300, 1000]) [500] 1 0 1 0 True) =
     Inr \<lparr> lengths = [500], batch_size = 1, boundaries = 0,
           num_replicas = 1, rank = 0, shuffle = True, epoch = 0,
           buckets = [[], [0]], num_samples_per_bucket = [0, 1],
           total_size = 1, num_samples = 1, batches = None \<rparr>
   \<and> fst (init (\<lambda>_. [32, 300, 1000]) [500] 1 0 1 0 True) 0 = [32, 300, 1000]"
  by code_simp

subsection \<open>Lists: gather, collect, padding, slicing, batching\<close>

lemma gather_eq:
  "gather xs ids = (if \<forall>i\<in>set ids. i < length xs then Inr (map (\<lambda>i. xs ! i) ids) else Inl IndexError)"
  by (induction ids) auto

lemma gather_Inr_set: "gather xs ids = Inr ys \<Longrightarrow> set ys \<subseteq> set xs"
  by (auto simp: gather_eq split: if_splits)

lemma collect_map_Inr: "collect (map (\<lambda>x. Inr (f x)) xs) = Inr (map f xs)"
  by (induction xs) auto

lemma collect_Inr: "collect rs = Inr vs \<Longrightarrow> rs = map Inr vs"
  by (induction rs arbitrary: vs) (auto split: sum.splits)

lemma collect_cong_Inr:
  "(\<And>x. x \<in> set xs \<Longrightarrow> g x = Inr (f x)) \<Longrightarrow> collect (map g xs) = Inr (map f xs)"
  by (induction xs) auto

lemma concat_chunks: "concat (map (\<lambda>j. take b (drop (j * b) xs)) [0 ..< m]) = take (m * b) xs"
proof (induction m)
  case 0
  show ?case by simp
next
  case (Suc m)
  have "take (m * b + b) xs = take (m * b) xs @ take b (drop (m * b) xs)"
    by (rule take_add)
  with Suc show ?case by (simp add: add.commute)
qed

lemma tile_nth:
  assumes "0 < length p" "j \<le> length p" "q < k * length p + j"
  shows "(concat (replicate k p) @ take j p) ! q = p ! (q mod length p)"
  using assms
proof (induction k arbitrary: q)
  case 0
  then show ?case by simp
next
  case (Suc k)
  show ?case
  proof (cases "q < length p")
    case True
    then show ?thesis by (simp add: nth_append)
  next
    case False
    then have "q - length p < k * length p + j" using Suc.prems by simp
    from Suc.IH[OF Suc.prems(1,2) this] False show ?thesis
      by (simp add: nth_append le_mod_geq)
  qed
qed

lemma pad_ids_as_tile:
  "pad_ids p L r = concat (replicate (Suc (nat (r div int L))) p) @ take (nat (r mod int L)) p"
  by (simp add: pad_ids_def)

lemma pad_ids_length:
  assumes "0 < L" "length p = L" "0 \<le> r"
  shows "int (length (pad_ids p L r)) = int L + r"
proof -
  have d: "0 \<le> r div int L" "0 \<le> r mod int L" "r mod int L < int L"
    using assms by (auto simp: pos_imp_zdiv_nonneg_iff)
  then have "min L (nat (r mod int L)) = nat (r mod int L)" by linarith
  then have "int (length (pad_ids p L r)) = int L + (r div int L) * int L + r mod int L"
    using assms d by (simp add: pad_ids_def length_concat sum_list_replicate)
  then show ?thesis by simp
qed

lemma pad_ids_nth:
  assumes "0 < L" "length p = L" "0 \<le> r" "q < length (pad_ids p L r)"
  shows "pad_ids p L r ! q = p ! (q mod L)"
proof -
  have d: "0 \<le> r div int L" "0 \<le> r mod int L" "r mod int L < int L"
    using assms by (auto simp: pos_imp_zdiv_nonneg_iff)
  have j: "nat (r mod int L) \<le> length p" using d assms by linarith
  have q0: "int q < int L + r" using pad_ids_length[OF assms(1-3)] assms(4) by linarith
  have e: "r = (r div int L) * int L + r mod int L" by simp
  have "int (Suc (nat (r div int L)) * L + nat (r mod int L))
          = int L + (r div int L) * int L + r mod int L"
    using d by (simp add: algebra_simps)
  also have "\<dots> = int L + r" using e by linarith
  finally have "int q < int (Suc (nat (r div int L)) * L + nat (r mod int L))"
    using q0 by simp
  then have q: "q < Suc (nat (r div int L)) * length p + nat (r mod int L)"
    unfolding assms(2) by (simp only: of_nat_less_iff)
  show ?thesis
    unfolding pad_ids_as_tile using tile_nth[OF _ j q] assms by simp
qed

lemma pad_ids_set:
  assumes "0 < L" "length p = L" "0 \<le> r"
  shows "set (pad_ids p L r) = set p"
proof -
  have "set (take (nat (r mod int L)) p) \<subseteq> set p" by (rule set_take_subset)
  then show ?thesis by (auto simp: pad_ids_def)
qed


lemma slice_count:
  fixes N R k n :: nat
  assumes "0 < N" "R < N"
  shows "k < (n + N - 1 - R) div N \<longleftrightarrow> R + k * N < n"
proof -
  have "k < (n + N - 1 - R) div N \<longleftrightarrow> Suc k \<le> (n + N - 1 - R) div N" by auto
  also have "\<dots> \<longleftrightarrow> Suc k * N \<le> n + N - 1 - R"
    using assms(1) by (simp add: less_eq_div_iff_mult_less_eq)
  also have "\<dots> \<longleftrightarrow> R + k * N < n" using assms by auto
  finally show ?thesis .
qed

lemma slice_positions_nat:
  assumes "0 < N" "R < N"
  shows "slice_positions n (int R) (int N) = Inr (map (\<lambda>k. R + k * N) [0 ..< (n + N - 1 - R) div N])"
proof (cases "R \<le> n")
  case True
  then have s: "(if int R < 0 then max 0 (int R + int n) else min (int R) (int n)) = int R" by simp
  have e: "int n - int R + int N - 1 = int (n + N - 1 - R)" using True assms by linarith
  have c: "nat ((int n - int R + int N - 1) div int N) = (n + N - 1 - R) div N"
    unfolding e zdiv_int[symmetric] by (rule nat_int)
  have "map (\<lambda>k. nat (int R + int k * int N)) [0 ..< (n + N - 1 - R) div N]
        = map (\<lambda>k. R + k * N) [0 ..< (n + N - 1 - R) div N]"
    by (rule map_cong) (auto simp: nat_add_distrib nat_mult_distrib)
  then show ?thesis
    using assms(1) unfolding slice_positions_def Let_def s c by simp
next
  case False
  then have s: "(if int R < 0 then max 0 (int R + int n) else min (int R) (int n)) = int n" by simp
  have "(int N - 1) div int N = 0" using assms(1) by (simp add: div_pos_pos_trivial)
  then have c: "nat ((int n - int n + int N - 1) div int N) = 0" by simp
  have "n + N - 1 - R < N" using False assms by linarith
  then have c': "(n + N - 1 - R) div N = 0" by simp
  show ?thesis
    using assms(1) unfolding slice_positions_def Let_def s c c' by simp
qed

lemma subsample_nat:
  assumes "0 < N" "R < N"
  shows "subsample xs (int R) (int N)
         = Inr (map (\<lambda>k. xs ! (R + k * N)) [0 ..< (length xs + N - 1 - R) div N])"
  by (simp add: subsample_def slice_positions_nat[OF assms] comp_def)

lemma positions_set:
  assumes "0 < N" "R < N"
  shows "set (map (\<lambda>k. R + k * N) [0 ..< (n + N - 1 - R) div N]) = {p. p < n \<and> p mod N = R}"
proof (intro set_eqI iffI)
  fix p assume "p \<in> set (map (\<lambda>k. R + k * N) [0 ..< (n + N - 1 - R) div N])"
  then obtain k where k: "k < (n + N - 1 - R) div N" "p = R + k * N" by auto
  then show "p \<in> {p. p < n \<and> p mod N = R}"
    using slice_count[OF assms, of k n] assms by simp
next
  fix p assume "p \<in> {p. p < n \<and> p mod N = R}"
  then have p: "p < n" "p mod N = R" by auto
  then have e: "p = R + (p div N) * N" by (metis add.commute div_mult_mod_eq)
  then have "p div N < (n + N - 1 - R) div N"
    using slice_count[OF assms, of "p div N" n] p by simp
  with e show "p \<in> set (map (\<lambda>k. R + k * N) [0 ..< (n + N - 1 - R) div N])"
    by (auto intro!: image_eqI[where x = "p div N"])
qed

lemma positions_distinct:
  assumes "0 < N"
  shows "distinct (map (\<lambda>k. R + k * N) [0 ..< c])"
  using assms by (simp add: distinct_map inj_on_def)

lemma positions_count:
  assumes "0 < N" "R < N"
  shows "count (mset (map (\<lambda>k. R + k * N) [0 ..< (n + N - 1 - R) div N])) p
         = (if p < n \<and> p mod N = R then 1 else 0)"
proof -
  let ?ps = "map (\<lambda>k. R + k * N) [0 ..< (n + N - 1 - R) div N]"
  have "mset ?ps = mset_set (set ?ps)"
    using positions_distinct[OF assms(1)] by (simp only: mset_set_set)
  then show ?thesis
    unfolding positions_set[OF assms] by (simp add: count_mset_set')
qed

lemma positions_sum:
  assumes "0 < N"
  shows "(\<Sum>R = 0 ..< N. mset (map (\<lambda>k. R + k * N) [0 ..< (n + N - 1 - R) div N])) = mset [0 ..< n]"
proof (rule multiset_eqI)
  fix p
  have "count (\<Sum>R = 0 ..< N. mset (map (\<lambda>k. R + k * N) [0 ..< (n + N - 1 - R) div N])) p
        = (\<Sum>R = 0 ..< N. count (mset (map (\<lambda>k. R + k * N) [0 ..< (n + N - 1 - R) div N])) p)"
    by (rule count_sum)
  also have "\<dots> = (\<Sum>R = 0 ..< N. if p mod N = R then (if p < n then 1 else 0) else 0)"
  proof (rule sum.cong)
    fix R assume "R \<in> {0 ..< N}"
    then have "R < N" by simp
    show "count (mset (map (\<lambda>k. R + k * N) [0 ..< (n + N - 1 - R) div N])) p
            = (if p mod N = R then (if p < n then 1 else 0) else 0)"
      unfolding positions_count[OF assms \<open>R < N\<close>] by simp
  qed simp
  also have "\<dots> = (if p < n then 1 else 0)"
    using assms by (simp add: sum.delta')
  also have "\<dots> = count (mset [0 ..< n]) p" by simp
  finally show "count (\<Sum>R = 0 ..< N. mset (map (\<lambda>k. R + k * N) [0 ..< (n + N - 1 - R) div N])) p
        = count (mset [0 ..< n]) p" .
qed

lemma image_mset_sum_set:
  "image_mset f (sum g A) = (\<Sum>a\<in>A. image_mset f (g a))"
  by (induction A rule: infinite_finite_induct) auto

lemma strides_sum:
  assumes "0 < N"
  shows "(\<Sum>R = 0 ..< N. mset (map (\<lambda>k. xs ! (R + k * N)) [0 ..< (length xs + N - 1 - R) div N])) = mset xs"
proof -
  let ?ps = "\<lambda>R. map (\<lambda>k. R + k * N) [0 ..< (length xs + N - 1 - R) div N]"
  have "(\<Sum>R = 0 ..< N. mset (map (\<lambda>k. xs ! (R + k * N)) [0 ..< (length xs + N - 1 - R) div N]))
        = (\<Sum>R = 0 ..< N. image_mset (\<lambda>p. xs ! p) (mset (?ps R)))"
    by (simp add: comp_def multiset.map_comp)
  also have "\<dots> = image_mset (\<lambda>p. xs ! p) (\<Sum>R = 0 ..< N. mset (?ps R))"
    by (simp only: image_mset_sum_set)
  also have "\<dots> = image_mset (\<lambda>p. xs ! p) (mset [0 ..< length xs])"
    by (simp only: positions_sum[OF assms])
  also have "\<dots> = mset (map (\<lambda>p. xs ! p) [0 ..< length xs])" by simp
  also have "\<dots> = mset xs" by (simp only: map_nth)
  finally show ?thesis .
qed

lemma strided_length:
  fixes N R n m :: nat
  assumes "0 < N" "R < N" "n = m * N"
  shows "(n + N - 1 - R) div N = m"
proof -
  have "n + N - 1 - R = (N - 1 - R) + n" using assms(1,2) by arith
  then have "n + N - 1 - R = (N - 1 - R) + m * N" using assms(3) by simp
  moreover have "N - 1 - R < N" using assms by linarith
  ultimately show ?thesis using assms(1) by simp
qed

lemma batching_eq:
  assumes "0 < B" "\<forall>i\<in>set ids. i < length bucket"
  shows "batching bucket ids (int B)
         = Inr (map (\<lambda>j. map (\<lambda>i. bucket ! i) (take B (drop (j * B) ids))) [0 ..< length ids div B])"
proof -
  have c: "nat (int (length ids) div int B) = length ids div B"
    by (simp add: zdiv_int[symmetric])
  have "\<And>j. gather bucket (take B (drop (j * B) ids)) = Inr (map (\<lambda>i. bucket ! i) (take B (drop (j * B) ids)))"
    using assms(2) by (auto simp: gather_eq dest!: in_set_takeD in_set_dropD)
  then show ?thesis
    using assms(1) unfolding batching_def c by (simp add: collect_map_Inr)
qed

lemma chunk_length:
  assumes "j < length ids div B"
  shows "length (take B (drop (j * B) ids)) = B"
proof -
  have "Suc j \<le> length ids div B" using assms by simp
  then have "Suc j * B \<le> length ids div B * B" by (rule mult_le_mono1)
  also have "\<dots> \<le> length ids" by simp
  finally show ?thesis by simp
qed

lemma batching_subset:
  assumes "batching bucket ids bs = Inr bt" "b \<in> set bt"
  shows "set b \<subseteq> set bucket"
proof -
  let ?g = "\<lambda>j. gather bucket (take (nat bs) (drop (j * nat bs) ids))"
  let ?js = "[0 ..< nat (int (length ids) div bs)]"
  from assms(1) have "collect (map ?g ?js) = Inr bt"
    by (auto simp: batching_def split: if_splits)
  then have "map ?g ?js = map Inr bt" by (rule collect_Inr)
  then have "Inr b \<in> set (map ?g ?js)" using assms(2) by simp
  then obtain j where "?g j = Inr b" by auto
  then show ?thesis by (rule gather_Inr_set)
qed


subsection \<open>One bucket of one replica\<close>

lemma padded_ge:
  assumes "0 < nr * bs"
  shows "int (length b) \<le> padded nr bs b"
  unfolding padded_def using assms by (simp add: pos_mod_sign)

lemma padded_multiple:
  assumes "0 < nr" "0 < bs"
  shows "\<exists>m. padded nr bs b = int (m * (nat nr * nat bs))"
proof -
  have t: "0 < nr * bs" using assms by simp
  have "nr * bs dvd padded nr bs b" using padded_mod[of nr bs b] by (simp add: dvd_eq_mod_eq_0)
  then obtain q where q: "padded nr bs b = nr * bs * q" by (auto elim: dvdE)
  have "0 \<le> padded nr bs b" using padded_ge[OF t, of b] by linarith
  with q t have "0 \<le> q" by (simp add: zero_le_mult_iff)
  then have "padded nr bs b = int (nat q * (nat nr * nat bs))"
    using q assms by (simp add: ac_simps)
  then show ?thesis by blast
qed

lemma padded_empty: "padded nr bs [] = 0"
  by (simp add: padded_def)

lemma perm_facts:
  assumes "mset ids = mset [0 ..< L]"
  shows "length ids = L" "set ids = {0 ..< L}"
proof -
  show "length ids = L" using assms by (metis length_upt minus_nat.diff_0 size_mset)
  show "set ids = {0 ..< L}" using assms by (metis set_mset_mset set_upt)
qed

lemma padded_ids_facts:
  assumes r: "ready s" and p: "perms_of indices s" and i: "i < length (buckets s)"
  shows "int (length (padded_ids s indices i)) = num_samples_per_bucket s ! i"
    and "set (padded_ids s indices i) \<subseteq> {0 ..< length (buckets s ! i)}"
    and "\<And>q. q < length (padded_ids s indices i) \<Longrightarrow>
           padded_ids s indices i ! q = indices ! i ! (q mod length (buckets s ! i))"
proof -
  let ?L = "length (buckets s ! i)"
  let ?c = "num_samples_per_bucket s ! i"
  have c: "?c = padded (num_replicas s) (batch_size s) (buckets s ! i)"
    using r i by (simp add: ready_def)
  have t: "0 < num_replicas s * batch_size s" using r by (simp add: ready_def)
  have ids: "length (indices ! i) = ?L" "set (indices ! i) = {0 ..< ?L}"
    using perm_facts[of "indices ! i" ?L] p i by (simp_all add: perms_of_def)
  have rem: "0 \<le> ?c - int ?L" using padded_ge[OF t, of "buckets s ! i"] c by simp
  show "int (length (padded_ids s indices i)) = ?c"
  proof (cases "?L = 0")
    case True
    then show ?thesis using c ids by (simp add: padded_ids_def pad_ids_def padded_empty)
  next
    case False
    then have "0 < ?L" by simp
    from pad_ids_length[OF this ids(1) rem] show ?thesis by (simp add: padded_ids_def)
  qed
  show "set (padded_ids s indices i) \<subseteq> {0 ..< ?L}"
  proof (cases "?L = 0")
    case True
    then show ?thesis using ids by (simp add: padded_ids_def pad_ids_def)
  next
    case False
    then have "0 < ?L" by simp
    from pad_ids_set[OF this ids(1) rem] ids(2) show ?thesis by (simp add: padded_ids_def)
  qed
  show "padded_ids s indices i ! q = indices ! i ! (q mod ?L)"
    if "q < length (padded_ids s indices i)" for q
  proof (cases "?L = 0")
    case True
    then have "padded_ids s indices i = []" using ids by (simp add: padded_ids_def pad_ids_def)
    with that show ?thesis by simp
  next
    case False
    then have "0 < ?L" by simp
    from pad_ids_nth[OF this ids(1) rem] that show ?thesis by (simp add: padded_ids_def)
  qed
qed

lemma shard_length:
  assumes "0 < N" "R < N" "length xs = m * N"
  shows "length (shard xs R N) = m"
  unfolding shard_def length_map length_upt strided_length[OF assms] by simp

lemma shard_set:
  assumes "0 < N" "R < N"
  shows "set (shard xs R N) \<subseteq> set xs"
proof
  fix x assume "x \<in> set (shard xs R N)"
  then obtain k where k: "k < (length xs + N - 1 - R) div N" "x = xs ! (R + k * N)"
    by (auto simp: shard_def)
  then have "R + k * N < length xs" using slice_count[OF assms, of k "length xs"] by simp
  with k show "x \<in> set xs" by simp
qed

lemma shard_sum:
  assumes "0 < N"
  shows "(\<Sum>R = 0 ..< N. mset (shard xs R N)) = mset xs"
  unfolding shard_def by (rule strides_sum[OF assms])

lemma subsample_shard:
  assumes "0 < N" "R < N"
  shows "subsample xs (int R) (int N) = Inr (shard xs R N)"
  unfolding shard_def by (rule subsample_nat[OF assms])


lemma ready_nat:
  assumes "ready s"
  shows "0 < nat (num_replicas s)" "nat (rank s) < nat (num_replicas s)" "0 < nat (batch_size s)"
    "int (nat (num_replicas s)) = num_replicas s" "int (nat (rank s)) = rank s"
    "int (nat (batch_size s)) = batch_size s"
  using assms by (auto simp: ready_def)

lemma shard_padded_length:
  assumes r: "ready s" and p: "perms_of indices s" and i: "i < length (buckets s)"
  shows "\<exists>m. length (shard (padded_ids s indices i) (nat (rank s)) (nat (num_replicas s)))
              = m * nat (batch_size s)
           \<and> num_samples_per_bucket s ! i = int (m * (nat (num_replicas s) * nat (batch_size s)))"
proof -
  have c: "num_samples_per_bucket s ! i = padded (num_replicas s) (batch_size s) (buckets s ! i)"
    using r i by (simp add: ready_def)
  have pos: "0 < num_replicas s" "0 < batch_size s" using r by (auto simp: ready_def)
  from padded_multiple[OF pos, of "buckets s ! i"] c
  obtain m where m: "num_samples_per_bucket s ! i = int (m * (nat (num_replicas s) * nat (batch_size s)))"
    by auto
  have "int (length (padded_ids s indices i)) = int (m * (nat (num_replicas s) * nat (batch_size s)))"
    using padded_ids_facts(1)[OF r p i] m by simp
  then have "length (padded_ids s indices i) = (m * nat (batch_size s)) * nat (num_replicas s)"
    by (simp only: of_nat_eq_iff ac_simps)
  from shard_length[OF ready_nat(1,2)[OF r] this] m show ?thesis by blast
qed

lemma bucket_batches_eq:
  assumes r: "ready s" and p: "perms_of indices s" and i: "i < length (buckets s)"
  shows "bucket_batches s indices i = Inr (bb s indices i)"
proof (cases "length (buckets s ! i) = 0")
  case True
  have c: "num_samples_per_bucket s ! i = 0"
    using r i True by (simp add: ready_def padded_empty)
  have "length (padded_ids s indices i) = 0"
    using padded_ids_facts(1)[OF r p i] c by simp
  then have "padded_ids s indices i = []" by simp
  moreover have "(nat (num_replicas s) - 1 - nat (rank s)) div nat (num_replicas s) = 0"
    using ready_nat(1,2)[OF r] by simp
  ultimately have "bb s indices i = []" by (simp add: bb_def shard_def)
  then show ?thesis using True by (simp add: bucket_batches_def)
next
  case False
  let ?N = "nat (num_replicas s)" and ?R = "nat (rank s)" and ?B = "nat (batch_size s)"
  have len: "length (num_samples_per_bucket s) = length (buckets s)"
    using r by (simp add: ready_def)
  have g: "py_get (num_samples_per_bucket s) (int i) = Inr (num_samples_per_bucket s ! i)"
    using i len py_get_in_range[of "int i" "num_samples_per_bucket s"] by simp
  have sub: "subsample (padded_ids s indices i) (rank s) (num_replicas s)
             = Inr (shard (padded_ids s indices i) ?R ?N)"
    using subsample_shard[OF ready_nat(1,2)[OF r], of "padded_ids s indices i"]
    by (simp only: ready_nat(4,5)[OF r])
  have "set (shard (padded_ids s indices i) ?R ?N) \<subseteq> {0 ..< length (buckets s ! i)}"
    using shard_set[OF ready_nat(1,2)[OF r], of "padded_ids s indices i"]
      padded_ids_facts(2)[OF r p i] by blast
  then have "\<forall>x\<in>set (shard (padded_ids s indices i) ?R ?N). x < length (buckets s ! i)"
    by auto
  from batching_eq[OF ready_nat(3)[OF r] this]
  have bat: "batching (buckets s ! i) (shard (padded_ids s indices i) ?R ?N) (batch_size s)
             = Inr (bb s indices i)"
    by (simp only: ready_nat(6)[OF r] bb_def)
  show ?thesis
    using False unfolding bucket_batches_def g sum.case padded_ids_def[symmetric] sub bat by simp
qed

lemma bb_facts:
  assumes r: "ready s" and p: "perms_of indices s" and i: "i < length (buckets s)"
  shows "\<And>b. b \<in> set (bb s indices i) \<Longrightarrow>
            int (length b) = batch_size s \<and> set b \<subseteq> set (buckets s ! i)"
    and "int (length (bb s indices i)) * batch_size s = num_samples_per_bucket s ! i div num_replicas s"
    and "concat (bb s indices i)
         = map (\<lambda>x. buckets s ! i ! x)
             (shard (padded_ids s indices i) (nat (rank s)) (nat (num_replicas s)))"
proof -
  let ?N = "nat (num_replicas s)" and ?R = "nat (rank s)" and ?B = "nat (batch_size s)"
  let ?sh = "shard (padded_ids s indices i) ?R ?N"
  from shard_padded_length[OF r p i] obtain m where
    m: "length ?sh = m * ?B" "num_samples_per_bucket s ! i = int (m * (?N * ?B))"
    by blast
  have B: "0 < ?B" and N: "0 < ?N" using ready_nat[OF r] by auto
  have d: "length ?sh div ?B = m" using m(1) B by simp
  have inb: "set ?sh \<subseteq> {0 ..< length (buckets s ! i)}"
    using shard_set[OF ready_nat(1,2)[OF r], of "padded_ids s indices i"]
      padded_ids_facts(2)[OF r p i] by blast
  show "int (length b) = batch_size s \<and> set b \<subseteq> set (buckets s ! i)"
    if "b \<in> set (bb s indices i)" for b
  proof -
    from that obtain j where j: "j < length ?sh div ?B"
      "b = map (\<lambda>x. buckets s ! i ! x) (take ?B (drop (j * ?B) ?sh))"
      by (auto simp: bb_def)
    have "length b = ?B" using chunk_length[OF j(1)] j(2) by simp
    moreover have "set (take ?B (drop (j * ?B) ?sh)) \<subseteq> {0 ..< length (buckets s ! i)}"
      using inb by (meson in_set_dropD in_set_takeD subset_iff)
    then have "set b \<subseteq> set (buckets s ! i)" unfolding j(2) by auto
    ultimately show ?thesis using ready_nat(6)[OF r] by simp
  qed
  have "num_samples_per_bucket s ! i div num_replicas s = int (m * ?B)"
  proof -
    have "num_samples_per_bucket s ! i = int (m * ?B) * int ?N" using m(2) by (simp add: ac_simps)
    then show ?thesis using N ready_nat(4)[OF r] by simp
  qed
  moreover have "length (bb s indices i) = m" using d by (simp add: bb_def)
  ultimately show "int (length (bb s indices i)) * batch_size s
                   = num_samples_per_bucket s ! i div num_replicas s"
    using ready_nat(6)[OF r] by simp
  have "concat (bb s indices i)
        = map (\<lambda>x. buckets s ! i ! x) (concat (map (\<lambda>j. take ?B (drop (j * ?B) ?sh)) [0 ..< length ?sh div ?B]))"
    by (simp add: bb_def map_concat comp_def)
  also have "\<dots> = map (\<lambda>x. buckets s ! i ! x) (take (m * ?B) ?sh)"
    unfolding concat_chunks d ..
  also have "\<dots> = map (\<lambda>x. buckets s ! i ! x) ?sh" using m(1) by simp
  finally show "concat (bb s indices i) = map (\<lambda>x. buckets s ! i ! x) ?sh" .
qed


subsection \<open>A whole epoch of one replica\<close>

lemma bucket_loop_eq:
  assumes "ready s" "perms_of indices s"
  shows "bucket_loop s indices = Inr (concat (map (bb s indices) [0 ..< length (buckets s)]))"
proof -
  have "collect (map (bucket_batches s indices) [0 ..< length (buckets s)])
        = Inr (map (bb s indices) [0 ..< length (buckets s)])"
    by (rule collect_cong_Inr) (simp add: bucket_batches_eq[OF assms])
  then show ?thesis by (simp add: bucket_loop_def)
qed

lemma sum_list_div_int:
  fixes d :: int
  assumes "\<forall>x\<in>set xs. d dvd x"
  shows "sum_list (map (\<lambda>x. x div d) xs) = sum_list xs div d"
  using assms
proof (induction xs)
  case Nil
  show ?case by simp
next
  case (Cons x xs)
  have "d dvd sum_list ys" if "\<forall>y\<in>set ys. d dvd y" for ys
    using that by (induction ys) auto
  with Cons.prems have "d dvd x" "d dvd sum_list xs" by auto
  then have "(x + sum_list xs) div d = x div d + sum_list xs div d" by (rule div_add)
  with Cons show ?case by simp
qed

lemma ready_dvd:
  assumes "ready s" "x \<in> set (num_samples_per_bucket s)"
  shows "num_replicas s dvd x"
proof -
  from assms obtain b where "x = padded (num_replicas s) (batch_size s) b"
    by (auto simp: ready_def)
  moreover have "num_replicas s * batch_size s dvd padded (num_replicas s) (batch_size s) b"
    using padded_mod[of "num_replicas s" "batch_size s" b] by (simp add: dvd_eq_mod_eq_0)
  ultimately show ?thesis by (metis dvd_mult_left)
qed

lemma length_concat_scaled:
  "int (length (concat (map f xs))) * c = (\<Sum>x\<leftarrow>xs. int (length (f x)) * c)"
  by (induction xs) (simp_all add: algebra_simps)

lemma total_batches:
  assumes r: "ready s" and p: "perms_of indices s"
  shows "int (length (concat (map (bb s indices) [0 ..< length (buckets s)]))) * batch_size s
         = num_samples s"
proof -
  let ?k = "length (buckets s)"
  have len: "length (num_samples_per_bucket s) = ?k" using r by (simp add: ready_def)
  have "int (length (concat (map (bb s indices) [0 ..< ?k]))) * batch_size s
        = (\<Sum>i\<leftarrow>[0 ..< ?k]. int (length (bb s indices i)) * batch_size s)"
    by (rule length_concat_scaled)
  also have "\<dots> = (\<Sum>i\<leftarrow>[0 ..< ?k]. num_samples_per_bucket s ! i div num_replicas s)"
    by (rule arg_cong[where f = sum_list], rule map_cong) (simp_all add: bb_facts(2)[OF r p])
  also have "\<dots> = sum_list (map (\<lambda>x. x div num_replicas s) (map (\<lambda>i. num_samples_per_bucket s ! i) [0 ..< ?k]))"
    by (simp add: comp_def)
  also have "map (\<lambda>i. num_samples_per_bucket s ! i) [0 ..< ?k] = num_samples_per_bucket s"
    unfolding len[symmetric] by (rule map_nth)
  also have "sum_list (map (\<lambda>x. x div num_replicas s) (num_samples_per_bucket s))
             = sum_list (num_samples_per_bucket s) div num_replicas s"
    by (rule sum_list_div_int) (simp add: ready_dvd[OF r])
  also have "\<dots> = num_samples s" using r by (simp add: ready_def)
  finally show ?thesis .
qed

lemma draw_indices_perms:
  assumes "valid_prng P"
  shows "length (fst (draw_indices P bkts g)) = length bkts
       \<and> (\<forall>i < length bkts. mset (fst (draw_indices P bkts g) ! i) = mset [0 ..< length (bkts ! i)])"
proof (induction bkts arbitrary: g)
  case Nil
  show ?case by simp
next
  case (Cons b bkts)
  obtain p g' where d: "randperm P (length b) g = (p, g')" by (cases "randperm P (length b) g")
  obtain ps g'' where e: "draw_indices P bkts g' = (ps, g'')" by (cases "draw_indices P bkts g'")
  have p: "mset p = mset [0 ..< length b]"
    using assms d unfolding valid_prng_def by (metis fst_conv)
  from Cons[of g'] e have ps: "length ps = length bkts"
    "\<forall>i < length bkts. mset (ps ! i) = mset [0 ..< length (bkts ! i)]" by auto
  have "fst (draw_indices P (b # bkts) g) = p # ps" using d e by simp
  then show ?case using p ps by (auto simp: nth_Cons split: nat.splits)
qed

lemma all_indices_perms:
  assumes "valid_prng P"
  shows "perms_of (fst (all_indices P s)) s"
  using draw_indices_perms[OF assms, of "buckets s" "manual_seed P (epoch s)"]
  by (auto simp: perms_of_def all_indices_def)

lemma gather_perm:
  assumes "mset perm = mset [0 ..< length xs]"
  shows "gather xs perm = Inr (map (\<lambda>i. xs ! i) perm)" "mset (map (\<lambda>i. xs ! i) perm) = mset xs"
proof -
  have "set perm = {0 ..< length xs}" using perm_facts(2)[OF assms] .
  then show "gather xs perm = Inr (map (\<lambda>i. xs ! i) perm)" by (simp add: gather_eq)
  have "mset (map (\<lambda>i. xs ! i) perm) = image_mset (\<lambda>i. xs ! i) (mset [0 ..< length xs])"
    by (simp only: mset_map assms)
  also have "\<dots> = mset (map (\<lambda>i. xs ! i) [0 ..< length xs])" by (simp only: mset_map)
  also have "\<dots> = mset xs" by (simp only: map_nth)
  finally show "mset (map (\<lambda>i. xs ! i) perm) = mset xs" .
qed

lemma iter_result:
  assumes r: "ready s" and v: "valid_prng P"
  shows "\<exists>bt. iter P s = (s\<lparr>batches := Some bt\<rparr>, Inr bt) \<and> mset bt = mset (unshuffled P s)"
proof -
  obtain indices g1 where a: "all_indices P s = (indices, g1)" by (cases "all_indices P s")
  then have ind: "indices = fst (all_indices P s)" by simp
  have p: "perms_of indices s" unfolding ind by (rule all_indices_perms[OF v])
  let ?raw = "concat (map (bb s indices) [0 ..< length (buckets s)])"
  have bl: "bucket_loop s indices = Inr ?raw" by (rule bucket_loop_eq[OF r p])
  have u: "unshuffled P s = ?raw" by (simp add: unshuffled_def ind)
  have tot: "int (length ?raw) * batch_size s = num_samples s" by (rule total_batches[OF r p])
  show ?thesis
  proof (cases "shuffle s")
    case False
    then have "iter P s = (s\<lparr>batches := Some ?raw\<rparr>, Inr ?raw)"
      unfolding iter_def a prod.case bl sum.case using tot by simp
    then show ?thesis using u by simp
  next
    case True
    let ?perm = "fst (randperm P (length ?raw) g1)"
    have pm: "mset ?perm = mset [0 ..< length ?raw]" using v by (simp add: valid_prng_def)
    let ?bt = "map (\<lambda>i. ?raw ! i) ?perm"
    have g: "gather ?raw ?perm = Inr ?bt" and m: "mset ?bt = mset ?raw"
      using gather_perm[OF pm] by simp_all
    have "length ?bt = length ?raw" using m by (metis size_mset)
    then have tot': "int (length ?bt) * batch_size s = num_samples s" using tot by simp
    have "iter P s = (s\<lparr>batches := Some ?bt\<rparr>, Inr ?bt)"
      unfolding iter_def a prod.case bl sum.case using True g tot' by simp
    then show ?thesis using u m by auto
  qed
qed

lemma unshuffled_member:
  assumes r: "ready s" and v: "valid_prng P" and b: "b \<in> set (unshuffled P s)"
  shows "int (length b) = batch_size s \<and> (\<exists>i < length (buckets s). set b \<subseteq> set (buckets s ! i))"
proof -
  have p: "perms_of (fst (all_indices P s)) s" by (rule all_indices_perms[OF v])
  from b obtain i where i: "i < length (buckets s)" "b \<in> set (bb s (fst (all_indices P s)) i)"
    by (auto simp: unshuffled_def)
  from bb_facts(1)[OF r p i(1) i(2)] i(1) show ?thesis by blast
qed

lemma init_ready:
  assumes "0 < bs" "0 \<le> rk" "rk < nr"
  shows "\<exists>s. snd (init h lens bs a nr rk sh) = Inr s \<and> ready s \<and> ready (set_epoch e s)
           \<and> buckets (set_epoch e s) = buckets s \<and> num_samples (set_epoch e s) = num_samples s
           \<and> batch_size s = bs \<and> num_replicas s = nr \<and> rank s = rk"
  using assms by (simp add: init_snd ready_def set_epoch_def)


lemma valid_example_prng: "valid_prng example_prng"
proof -
  have "mset (rotate g xs) = mset xs" for g and xs :: "nat list"
  proof -
    let ?k = "g mod length xs"
    have "mset (rotate g xs) = mset (take ?k xs) + mset (drop ?k xs)"
      by (simp add: rotate_drop_take union_commute)
    also have "\<dots> = mset (take ?k xs @ drop ?k xs)" by (simp only: mset_append)
    also have "\<dots> = mset xs" by (simp only: append_take_drop_id)
    finally show ?thesis .
  qed
  then show ?thesis by (simp add: valid_prng_def example_prng_def)
qed

text \<open>
  C5, as the code has it. Nothing checks \<open>batch_size\<close>; for a positive \<open>batch_size\<close>, a
  rank in \<open>[0, num_replicas)\<close> and a generator whose \<open>randperm\<close> returns permutations,
  construction succeeds and \<open>__iter__\<close> returns batches for every epoch (the assertion
  holds): every batch has exactly \<open>batch_size\<close> sample indices, all of one bucket; the
  batches hold \<open>num_samples\<close> indices in all, and there are \<open>num_samples // batch_size\<close>
  of them.
\<close>

theorem batch_shape_and_count:
  assumes "0 < bs" "0 \<le> rk" "rk < nr" "valid_prng P"
  shows "\<exists>s bt. snd (init h lens bs a nr rk sh) = Inr s
           \<and> snd (iter P (set_epoch e s)) = Inr bt
           \<and> (\<forall>b\<in>set bt. int (length b) = bs \<and> (\<exists>i < length (buckets s). set b \<subseteq> set (buckets s ! i)))
           \<and> int (length (concat bt)) = num_samples s
           \<and> int (length bt) = num_samples s div bs
           \<and> int (length bt) * batch_size s = num_samples s"
proof -
  from init_ready[OF assms(1-3), of h lens a sh e] obtain s where
    s: "snd (init h lens bs a nr rk sh) = Inr s" "ready (set_epoch e s)"
       "buckets (set_epoch e s) = buckets s" "num_samples (set_epoch e s) = num_samples s"
       "batch_size s = bs"
    by blast
  let ?s = "set_epoch e s"
  have bs': "batch_size ?s = bs" using s(5) by (simp add: set_epoch_def)
  from iter_result[OF s(2) assms(4)] obtain bt where
    bt: "snd (iter P ?s) = Inr bt" "mset bt = mset (unshuffled P ?s)"
    by auto
  have mem: "int (length b) = bs \<and> (\<exists>i < length (buckets s). set b \<subseteq> set (buckets s ! i))"
    if "b \<in> set bt" for b
  proof -
    from that bt(2) have "b \<in> set (unshuffled P ?s)" by (metis set_mset_mset)
    from unshuffled_member[OF s(2) assms(4) this] show ?thesis using bs' s(3) by simp
  qed
  have "length bt = length (unshuffled P ?s)" using bt(2) by (metis size_mset)
  moreover have "int (length (unshuffled P ?s)) * batch_size ?s = num_samples ?s"
    unfolding unshuffled_def
    by (rule total_batches[OF s(2) all_indices_perms[OF assms(4)]])
  ultimately have tot: "int (length bt) * bs = num_samples s" using bs' s(4) by simp
  have len: "length b = nat bs" if "b \<in> set bt" for b
    using mem[OF that] by linarith
  have "length (concat bt) = sum_list (map length bt)" by (rule length_concat)
  also have "\<dots> = sum_list (map (\<lambda>_. nat bs) bt)"
    by (rule arg_cong[where f = sum_list], rule map_cong) (simp_all add: len)
  also have "\<dots> = length bt * nat bs" by (simp only: sum_list_triv of_nat_id)
  finally have "length (concat bt) = length bt * nat bs" .
  then have cc: "int (length (concat bt)) = num_samples s" using tot assms(1) by simp
  have dv: "int (length bt) = num_samples s div bs" using tot assms(1) by (metis less_irrefl nonzero_mult_div_cancel_right)
  from s(1) bt(1) mem cc dv tot s(5) show ?thesis by blast
qed

theorem batch_shape_and_count_witness:
  "(0::int) < 2 \<and> (0::int) \<le> 1 \<and> (1::int) < 2 \<and> valid_prng example_prng
   \<and> (\<exists>s bt. snd (init (\<lambda>_. [32, 300, 1000]) [10, 50, 500, 1500, 40, 60] 2 0 2 1 True) = Inr s
           \<and> snd (iter example_prng (set_epoch 1 s)) = Inr bt
           \<and> (\<forall>b\<in>set bt. int (length b) = 2 \<and> (\<exists>i < length (buckets s). set b \<subseteq> set (buckets s ! i)))
           \<and> int (length (concat bt)) = num_samples s
           \<and> int (length bt) = num_samples s div 2
           \<and> int (length bt) * batch_size s = num_samples s)"
  using batch_shape_and_count[of 2 1 2 example_prng "\<lambda>_. [32, 300, 1000]" "[10, 50, 500, 1500, 40, 60]" 0 True 1]
    valid_example_prng by simp

text \<open>
  With \<open>batch_size = -2\<close> construction succeeds, \<open>__iter__\<close> builds no batch and its
  assertion fails.
\<close>

theorem batch_shape_negative_batch_size_counterexample:
  "\<not> isl (snd (init (\<lambda>_. [32, 300, 1000]) [50, 60, 70] (- 2) 0 1 0 False))
   \<and> snd (iter example_prng (projr (snd (init (\<lambda>_. [32, 300, 1000]) [50, 60, 70] (- 2) 0 1 0 False))))
       = Inl AssertionError"
  by code_simp

lemma bucket_batches_indices_cong:
  assumes "indices ! i = indices' ! i"
  shows "bucket_batches s indices i = bucket_batches s indices' i"
  unfolding bucket_batches_def assms ..

lemma padded_ids_indices_cong:
  "indices ! i = indices' ! i \<Longrightarrow> padded_ids s indices i = padded_ids s indices' i"
  by (simp add: padded_ids_def)

text \<open>
  C3, as the code has it. Nothing checks \<open>batch_size\<close>; for a positive \<open>batch_size\<close> and
  a rank in \<open>[0, num_replicas)\<close>, a non-empty bucket \<open>i\<close> of the constructed sampler and a
  permutation \<open>p\<close> of the bucket's positions given as \<open>indices[i]\<close>: the padded list has
  exactly \<open>num_samples_per_bucket[i]\<close> entries, entry \<open>q\<close> is \<open>p[q mod L]\<close>, the slice
  \<open>[rank::num_replicas]\<close> has \<open>num_samples_per_bucket[i] / num_replicas\<close> entries, entry
  \<open>k\<close> being the padded list's entry \<open>rank + k * num_replicas\<close>, and the batches that the
  loop body appends for the bucket are this shard, as sample indices, cut into batches.
  With the lists that \<open>__iter__\<close> draws, these batches are there and are among the batches
  that \<open>__iter__\<close> returns.
\<close>

theorem shard_content:
  assumes "snd (init h lens bs a nr rk sh) = Inr s0" "s = set_epoch e s0"
    and "0 < bs" "0 \<le> rk" "rk < nr"
    and "i < length (buckets s)" "buckets s ! i \<noteq> []"
    and "indices ! i = p" "mset p = mset [0 ..< length (buckets s ! i)]"
  shows "int (length (pad_ids p (length (buckets s ! i))
                  (num_samples_per_bucket s ! i - int (length (buckets s ! i)))))
           = num_samples_per_bucket s ! i
       \<and> (\<forall>q < length (pad_ids p (length (buckets s ! i))
                  (num_samples_per_bucket s ! i - int (length (buckets s ! i)))).
            pad_ids p (length (buckets s ! i))
                  (num_samples_per_bucket s ! i - int (length (buckets s ! i))) ! q
              = p ! (q mod length (buckets s ! i)))
       \<and> (\<exists>ids bt. subsample (pad_ids p (length (buckets s ! i))
                  (num_samples_per_bucket s ! i - int (length (buckets s ! i)))) (rank s) (num_replicas s)
                  = Inr ids
             \<and> int (length ids) = num_samples_per_bucket s ! i div num_replicas s
             \<and> (\<forall>k < length ids. ids ! k =
                   pad_ids p (length (buckets s ! i))
                     (num_samples_per_bucket s ! i - int (length (buckets s ! i)))
                   ! (nat (rank s) + k * nat (num_replicas s)))
             \<and> bucket_batches s indices i = Inr bt
             \<and> concat bt = map (\<lambda>x. buckets s ! i ! x) ids)
       \<and> (valid_prng P \<longrightarrow>
            (\<exists>bt batches. bucket_batches s (fst (all_indices P s)) i = Inr bt
               \<and> snd (iter P s) = Inr batches \<and> bt \<noteq> [] \<and> set bt \<subseteq> set batches))"
proof -
  let ?L = "length (buckets s ! i)" and ?c = "num_samples_per_bucket s ! i"
  let ?N = "nat (num_replicas s)" and ?R = "nat (rank s)" and ?B = "nat (batch_size s)"
  let ?pad = "pad_ids p ?L (?c - int ?L)"
  from init_ready[OF assms(3-5), of h lens a sh e] assms(1,2)
  have r: "ready s" by auto
  note i = assms(6)
  define ind where "ind = map (\<lambda>j. if j = i then p else [0 ..< length (buckets s ! j)])
                            [0 ..< length (buckets s)]"
  have indi: "ind ! i = p" using i by (simp add: ind_def)
  have pm: "perms_of ind s" using assms(9) by (simp add: perms_of_def ind_def)
  have pid: "padded_ids s ind i = ?pad" by (simp add: padded_ids_def indi)
  have 1: "int (length ?pad) = ?c" using padded_ids_facts(1)[OF r pm i] unfolding pid .
  have 2: "\<forall>q < length ?pad. ?pad ! q = p ! (q mod ?L)"
    using padded_ids_facts(3)[OF r pm i] unfolding pid indi by blast
  have sub: "subsample ?pad (rank s) (num_replicas s) = Inr (shard ?pad ?R ?N)"
    using subsample_shard[OF ready_nat(1,2)[OF r], of ?pad] by (simp only: ready_nat(4,5)[OF r])
  from shard_padded_length[OF r pm i] obtain m where
    m: "length (shard ?pad ?R ?N) = m * ?B" "?c = int (m * (?N * ?B))"
    unfolding pid by blast
  have "?c div num_replicas s = int (m * ?B)"
  proof -
    have "?c = int (m * ?B) * int ?N" using m(2) by (simp add: ac_simps)
    then show ?thesis using ready_nat(1,4)[OF r] by simp
  qed
  then have 3: "int (length (shard ?pad ?R ?N)) = ?c div num_replicas s" using m(1) by simp
  have 4: "\<forall>k < length (shard ?pad ?R ?N). shard ?pad ?R ?N ! k = ?pad ! (?R + k * ?N)"
    by (simp add: shard_def)
  have bbe: "bucket_batches s indices i = Inr (bb s ind i)"
    using bucket_batches_eq[OF r pm i] bucket_batches_indices_cong[of indices i ind s] assms(8) indi
    by simp
  have 5: "concat (bb s ind i) = map (\<lambda>x. buckets s ! i ! x) (shard ?pad ?R ?N)"
    using bb_facts(3)[OF r pm i] unfolding pid .
  have 6: "\<exists>bt batches. bucket_batches s (fst (all_indices P s)) i = Inr bt
               \<and> snd (iter P s) = Inr batches \<and> bt \<noteq> [] \<and> set bt \<subseteq> set batches"
    if v: "valid_prng P"
  proof -
    let ?ind = "fst (all_indices P s)"
    have pp: "perms_of ?ind s" by (rule all_indices_perms[OF v])
    have e1: "bucket_batches s ?ind i = Inr (bb s ?ind i)" by (rule bucket_batches_eq[OF r pp i])
    from iter_result[OF r v] obtain batches where
      it: "snd (iter P s) = Inr batches" "mset batches = mset (unshuffled P s)" by auto
    have "set (bb s ?ind i) \<subseteq> set (unshuffled P s)" using i by (auto simp: unshuffled_def)
    then have e2: "set (bb s ?ind i) \<subseteq> set batches" using it(2) by (metis set_mset_mset)
    have "int (length (bb s ?ind i)) * batch_size s = ?c div num_replicas s"
      by (rule bb_facts(2)[OF r pp i])
    moreover have "0 < ?c div num_replicas s"
    proof -
      have "0 < ?L" using assms(7) by simp
      moreover have "int ?L \<le> ?c"
        using padded_ge[of "num_replicas s" "batch_size s" "buckets s ! i"] r i
        by (simp add: ready_def)
      ultimately have "0 < ?c" by linarith
      moreover have "num_replicas s dvd ?c"
        using ready_dvd[OF r, of ?c] r i by (simp add: ready_def)
      moreover have "0 < num_replicas s" using r by (simp add: ready_def)
      ultimately show ?thesis by (simp add: pos_imp_zdiv_pos_iff zdvd_imp_le)
    qed
    ultimately have "bb s ?ind i \<noteq> []" by auto
    with e1 it(1) e2 show ?thesis by blast
  qed
  from 1 2 sub 3 4 bbe 5 6 show ?thesis by blast
qed

theorem shard_content_witness:
  "let s0 = \<lparr> lengths = [10, 50, 500, 1500, 40, 60], batch_size = 2, boundaries = 0,
              num_replicas = 2, rank = 1, shuffle = True, epoch = 0,
              buckets = [[1, 4, 5], [2]], num_samples_per_bucket = [4, 4],
              total_size = 8, num_samples = 4, batches = None \<rparr>;
       s = \<lparr> lengths = [10, 50, 500, 1500, 40, 60], batch_size = 2, boundaries = 0,
              num_replicas = 2, rank = 1, shuffle = True, epoch = 1,
              buckets = [[1, 4, 5], [2]], num_samples_per_bucket = [4, 4],
              total_size = 8, num_samples = 4, batches = None \<rparr>;
       pad = pad_ids [1, 2, 0] (length (buckets s ! 0))
               (num_samples_per_bucket s ! 0 - int (length (buckets s ! 0)))
   in snd (init (\<lambda>_. [32, 300, 1000]) [10, 50, 500, 1500, 40, 60] 2 0 2 1 True) = Inr s0
    \<and> s = set_epoch 1 s0
    \<and> (0::int) < 2 \<and> (0::int) \<le> 1 \<and> (1::int) < 2
    \<and> 0 < length (buckets s) \<and> buckets s ! 0 \<noteq> []
    \<and> [[1, 2, 0], [0]] ! 0 = [1, 2, 0 :: nat]
    \<and> mset [1, 2, 0] = mset [0 ..< length (buckets s ! 0)]
    \<and> valid_prng example_prng
    \<and> pad = [1, 2, 0, 1]
    \<and> subsample pad (rank s) (num_replicas s) = Inr [2, 1]
    \<and> bucket_batches s [[1, 2, 0], [0]] 0 = Inr [[5, 4]]
    \<and> int (length pad) = num_samples_per_bucket s ! 0
    \<and> (\<exists>ids bt. subsample pad (rank s) (num_replicas s) = Inr ids
          \<and> int (length ids) = num_samples_per_bucket s ! 0 div num_replicas s
          \<and> bucket_batches s [[1, 2, 0], [0]] 0 = Inr bt
          \<and> concat bt = map (\<lambda>x. buckets s ! 0 ! x) ids)
    \<and> (\<exists>bt batches. bucket_batches s (fst (all_indices example_prng s)) 0 = Inr bt
          \<and> snd (iter example_prng s) = Inr batches \<and> bt \<noteq> [] \<and> set bt \<subseteq> set batches)"
proof -
  let ?built = "\<lparr> lengths = [10, 50, 500, 1500, 40, 60], batch_size = 2, boundaries = 0,
              num_replicas = 2, rank = 1, shuffle = True, epoch = 0,
              buckets = [[1, 4, 5], [2]], num_samples_per_bucket = [4, 4],
              total_size = 8, num_samples = 4, batches = None \<rparr>"
  let ?smp = "\<lparr> lengths = [10, 50, 500, 1500, 40, 60], batch_size = 2, boundaries = 0,
              num_replicas = 2, rank = 1, shuffle = True, epoch = 1,
              buckets = [[1, 4, 5], [2]], num_samples_per_bucket = [4, 4],
              total_size = 8, num_samples = 4, batches = None \<rparr>"
  let ?pad = "pad_ids [1, 2, 0] (length (buckets ?smp ! 0))
               (num_samples_per_bucket ?smp ! 0 - int (length (buckets ?smp ! 0)))"
  have i: "snd (init (\<lambda>_. [32, 300, 1000]) [10, 50, 500, 1500, 40, 60] 2 0 2 1 True) = Inr ?built"
    by code_simp
  have se: "?smp = set_epoch 1 ?built" by (simp add: set_epoch_def)
  have n: "(0::int) < 2" "(0::int) \<le> 1" "(1::int) < 2" by simp_all
  have h: "0 < length (buckets ?smp)" "buckets ?smp ! 0 \<noteq> []" "[[1, 2, 0], [0]] ! 0 = [1, 2, 0 :: nat]"
    by simp_all
  have "[0 ..< length (buckets ?smp ! 0)] = [0, 1, 2]" by code_simp
  then have m: "mset [1, 2, 0] = mset [0 ..< length (buckets ?smp ! 0)]"
    by (simp only: mset.simps add_mset_commute)
  have p: "?pad = [1, 2, 0, 1]" by code_simp
  have q: "subsample ?pad (rank ?smp) (num_replicas ?smp) = Inr [2, 1]" by code_simp
  have b: "bucket_batches ?smp [[1, 2, 0], [0]] 0 = Inr [[5, 4]]" by code_simp
  note th = shard_content[OF i se n h m, where P = example_prng]
  have l: "int (length ?pad) = num_samples_per_bucket ?smp ! 0" using th by blast
  have c: "\<exists>ids bt. subsample ?pad (rank ?smp) (num_replicas ?smp) = Inr ids
          \<and> int (length ids) = num_samples_per_bucket ?smp ! 0 div num_replicas ?smp
          \<and> bucket_batches ?smp [[1, 2, 0], [0]] 0 = Inr bt
          \<and> concat bt = map (\<lambda>x. buckets ?smp ! 0 ! x) ids"
    using th by blast
  have d: "\<exists>bt batches. bucket_batches ?smp (fst (all_indices example_prng ?smp)) 0 = Inr bt
          \<and> snd (iter example_prng ?smp) = Inr batches \<and> bt \<noteq> [] \<and> set bt \<subseteq> set batches"
    using th valid_example_prng by blast
  show ?thesis unfolding Let_def by (intro conjI i se n h m valid_example_prng p q b l c d)
qed

text \<open>
  With \<open>batch_size = -2\<close> and one replica a bucket of three samples gets the padded count
  2, while its padded list and its shard have five entries.
\<close>

theorem shard_content_negative_batch_size_counterexample:
  "map_sum id buckets (snd (init (\<lambda>_. [32, 300]) [50, 60, 70] (- 2) 0 1 0 False)) = Inr [[0, 1, 2]]
   \<and> map_sum id num_samples_per_bucket (snd (init (\<lambda>_. [32, 300]) [50, 60, 70] (- 2) 0 1 0 False)) = Inr [2]
   \<and> pad_ids [0, 1, 2] 3 (2 - 3) = [0, 1, 2, 0, 1]
   \<and> subsample (pad_ids [0, 1, 2] 3 (2 - 3)) 0 1 = Inr [0, 1, 2, 0, 1]"
  by code_simp

subsection \<open>Elements of the batches\<close>

lemma bucket_batches_subset:
  assumes "bucket_batches s indices i = Inr x" "b \<in> set x"
  shows "set b \<subseteq> set (buckets s ! i)"
proof (cases "length (buckets s ! i) = 0")
  case True
  with assms show ?thesis by (simp add: bucket_batches_def)
next
  case False
  with assms(1) obtain ids where "batching (buckets s ! i) ids (batch_size s) = Inr x"
    by (auto simp: bucket_batches_def split: sum.splits)
  from batching_subset[OF this assms(2)] show ?thesis .
qed

lemma bucket_loop_subset:
  assumes "bucket_loop s indices = Inr bt" "b \<in> set bt"
  shows "\<exists>i < length (buckets s). set b \<subseteq> set (buckets s ! i)"
proof -
  from assms(1) obtain bbs where c: "collect (map (bucket_batches s indices) [0 ..< length (buckets s)]) = Inr bbs"
    and bt: "bt = concat bbs"
    by (auto simp: bucket_loop_def split: sum.splits)
  from collect_Inr[OF c] have m: "map (bucket_batches s indices) [0 ..< length (buckets s)] = map Inr bbs" .
  from assms(2) bt obtain x where x: "x \<in> set bbs" "b \<in> set x" by auto
  then have "Inr x \<in> set (map (bucket_batches s indices) [0 ..< length (buckets s)])"
    unfolding m by simp
  then obtain i where "i < length (buckets s)" "bucket_batches s indices i = Inr x" by auto
  with bucket_batches_subset[OF this(2) x(2)] show ?thesis by blast
qed

lemma iter_subset:
  assumes "snd (iter P s) = Inr bt" "b \<in> set bt"
  shows "\<exists>i < length (buckets s). set b \<subseteq> set (buckets s ! i)"
proof -
  obtain indices g1 where a: "all_indices P s = (indices, g1)" by (cases "all_indices P s")
  from assms(1) obtain raw where bl: "bucket_loop s indices = Inr raw"
    unfolding iter_def a prod.case by (auto split: sum.splits)
  from assms(1) have "set bt \<subseteq> set raw"
    unfolding iter_def a prod.case bl sum.case
    by (auto split: sum.splits if_splits dest: gather_Inr_set)
  with assms(2) have "b \<in> set raw" by blast
  from bucket_loop_subset[OF bl this] show ?thesis .
qed

lemma pruned_subset: "set (pruned X) \<subseteq> set X"
proof -
  have "set (take 1 X) \<subseteq> set X" by (rule set_take_subset)
  moreover have "set (drop 1 X) \<subseteq> set X" by (rule set_drop_subset)
  ultimately show ?thesis by (auto simp: pruned_def)
qed

lemma last_pruned:
  assumes "X \<noteq> []" "last X \<noteq> []"
  shows "last (pruned X) = last X"
proof (cases "butlast X = []")
  case True
  with assms(1) have "X = [last X]" by (metis append_butlast_last_id append_Nil)
  then have "pruned X = [last X]" by (metis append_Nil2 drop0 drop_Suc_Cons filter.simps(1) pruned_def take0 take_Suc_Cons One_nat_def)
  then show ?thesis by simp
next
  case False
  have X: "X = butlast X @ [last X]" using assms(1) by simp
  have "drop 1 (Y @ [l]) = drop 1 Y @ [l]" if "Y \<noteq> []" for Y :: "'a list list" and l
    using that by (cases Y) simp_all
  from this[OF False, of "last X"] have "drop 1 X = drop 1 (butlast X) @ [last X]"
    using X by simp
  then have "filter (\<lambda>b. b \<noteq> []) (drop 1 X) = filter (\<lambda>b. b \<noteq> []) (drop 1 (butlast X)) @ [last X]"
    using assms(2) by simp
  then show ?thesis by (simp add: pruned_def)
qed

lemma members_iff:
  assumes "sorted bnds" "Suc k < length bnds"
  shows "j \<in> set (members bnds lens k) \<longleftrightarrow> j < length lens \<and> bnds ! k < lens ! j \<and> lens ! j \<le> bnds ! Suc k"
  by (auto simp: members_def bisect_default_iff[OF assms])


lemma classes_range:
  assumes st: "sorted_wrt (<) bnds" and i: "i < length (classes bnds lens)"
  shows "j \<in> set (classes bnds lens ! i) \<longleftrightarrow>
           j < length lens \<and> bnds ! i < lens ! j \<and> lens ! j \<le> bnds ! Suc i"
    and "j \<in> set (classes bnds lens ! i) \<Longrightarrow> hd bnds < lens ! j \<and> lens ! j \<le> last bnds"
proof -
  have so: "sorted bnds" using st by (rule strict_sorted_imp_sorted)
  have si: "Suc i < length bnds" using i by (simp add: classes_length)
  have ci: "classes bnds lens ! i = members bnds lens i" using i by (simp add: classes_def)
  show iff: "j \<in> set (classes bnds lens ! i) \<longleftrightarrow>
           j < length lens \<and> bnds ! i < lens ! j \<and> lens ! j \<le> bnds ! Suc i"
    unfolding ci by (rule members_iff[OF so si])
  have ne: "bnds \<noteq> []" using si by auto
  have "hd bnds \<le> bnds ! i" using sorted_nth_mono[OF so, of 0 i] si ne by (simp add: hd_conv_nth)
  moreover have "bnds ! Suc i \<le> last bnds"
    using sorted_nth_mono[OF so, of "Suc i" "length bnds - 1"] si ne by (simp add: last_conv_nth)
  ultimately show "hd bnds < lens ! j \<and> lens ! j \<le> last bnds" if "j \<in> set (classes bnds lens ! i)"
    using that iff by auto
qed

lemma classes_last:
  assumes st: "sorted_wrt (<) bnds" and l: "2 \<le> length bnds" and j: "j < length lens" "lens ! j = last bnds"
  shows "j \<in> set (last (classes bnds lens))"
proof -
  let ?k = "length bnds - 2"
  have k: "?k < length (classes bnds lens)" "Suc ?k = length bnds - 1" "Suc ?k < length bnds"
    using l by (auto simp: classes_length)
  have ne: "classes bnds lens \<noteq> []" using k(1) by auto
  have "length (classes bnds lens) - 1 = ?k" using l by (simp add: classes_length)
  then have la: "last (classes bnds lens) = classes bnds lens ! ?k"
    by (simp only: last_conv_nth[OF ne])
  have nb: "bnds \<noteq> []" using l by auto
  have "bnds ! ?k < bnds ! Suc ?k" using sorted_wrt_nth_less[OF st, of ?k "Suc ?k"] k(3) by simp
  moreover have "last bnds = bnds ! Suc ?k" using k(2) by (simp only: last_conv_nth[OF nb])
  ultimately show ?thesis
    unfolding la classes_range(1)[OF st k(1)] using j by simp
qed


text \<open>
  C6. For strictly increasing boundaries the classification puts sample \<open>j\<close> in bucket
  \<open>i\<close> exactly when \<open>boundaries[i] < lengths[j] <= boundaries[i + 1]\<close>: a sample whose
  length is the first boundary or exceeds the last one is in no bucket, a sample whose
  length is the last boundary is in the last bucket (also of the constructed sampler), and
  every sample in a bucket of the constructed sampler or in a batch that \<open>__iter__\<close>
  returns has its length in \<open>(b0, bk]\<close>.
\<close>

theorem discard_rule:
  assumes "h a = bnds" "sorted_wrt (<) bnds"
  shows "\<exists>bkts0. classify bnds lens 0 (replicate (length bnds - 1) []) = Inr bkts0
     \<and> length bkts0 = length bnds - 1
     \<and> (\<forall>i < length bkts0. \<forall>j. j \<in> set (bkts0 ! i) \<longleftrightarrow>
            j < length lens \<and> bnds ! i < lens ! j \<and> lens ! j \<le> bnds ! Suc i)
     \<and> (\<forall>j < length lens. \<forall>i < length bkts0.
            lens ! j = hd bnds \<or> last bnds < lens ! j \<longrightarrow> j \<notin> set (bkts0 ! i))
     \<and> (\<forall>j < length lens. 2 \<le> length bnds \<and> lens ! j = last bnds \<longrightarrow> j \<in> set (last bkts0))
     \<and> (\<forall>s. snd (init h lens bs a nr rk sh) = Inr s \<longrightarrow>
           (\<forall>j < length lens. 2 \<le> length bnds \<and> lens ! j = last bnds \<longrightarrow> j \<in> set (last (buckets s)))
         \<and> (\<forall>i < length (buckets s). \<forall>j \<in> set (buckets s ! i).
               j < length lens \<and> hd bnds < lens ! j \<and> lens ! j \<le> last bnds)
         \<and> (\<forall>e bt. snd (iter P (set_epoch e s)) = Inr bt \<longrightarrow>
               (\<forall>b \<in> set bt. \<forall>j \<in> set b. j < length lens \<and> hd bnds < lens ! j \<and> lens ! j \<le> last bnds)))"
proof -
  let ?X = "classes bnds lens"
  note st = assms(2)
  have 1: "classify bnds lens 0 (replicate (length bnds - 1) []) = Inr ?X" by (rule classify_classes)
  have 2: "length ?X = length bnds - 1" by (rule classes_length)
  have 3: "\<forall>i < length ?X. \<forall>j. j \<in> set (?X ! i) \<longleftrightarrow>
            j < length lens \<and> bnds ! i < lens ! j \<and> lens ! j \<le> bnds ! Suc i"
    using classes_range(1)[OF st] by blast
  have rng: "j < length lens \<and> hd bnds < lens ! j \<and> lens ! j \<le> last bnds"
    if "i < length ?X" "j \<in> set (?X ! i)" for i j
    using classes_range(2)[OF st that] classes_range(1)[OF st that(1), of j] that(2) by blast
  have 4: "\<forall>j < length lens. \<forall>i < length ?X.
            lens ! j = hd bnds \<or> last bnds < lens ! j \<longrightarrow> j \<notin> set (?X ! i)"
    using rng by fastforce
  have 5: "\<forall>j < length lens. 2 \<le> length bnds \<and> lens ! j = last bnds \<longrightarrow> j \<in> set (last ?X)"
    using classes_last[OF st] by blast
  have 6: "(\<forall>j < length lens. 2 \<le> length bnds \<and> lens ! j = last bnds \<longrightarrow> j \<in> set (last (buckets s)))
         \<and> (\<forall>i < length (buckets s). \<forall>j \<in> set (buckets s ! i).
               j < length lens \<and> hd bnds < lens ! j \<and> lens ! j \<le> last bnds)
         \<and> (\<forall>e bt. snd (iter P (set_epoch e s)) = Inr bt \<longrightarrow>
               (\<forall>b \<in> set bt. \<forall>j \<in> set b. j < length lens \<and> hd bnds < lens ! j \<and> lens ! j \<le> last bnds))"
    if s: "snd (init h lens bs a nr rk sh) = Inr s" for s
  proof -
    have b: "buckets s = pruned ?X"
      using s assms(1) by (auto simp: init_snd split: if_splits)
    have a: "\<forall>j < length lens. 2 \<le> length bnds \<and> lens ! j = last bnds \<longrightarrow> j \<in> set (last (buckets s))"
    proof (intro allI impI)
      fix j assume j: "j < length lens" "2 \<le> length bnds \<and> lens ! j = last bnds"
      then have m: "j \<in> set (last ?X)" using 5 by blast
      have "?X \<noteq> []" using j(2) 2 by auto
      moreover have "last ?X \<noteq> []" using m by auto
      ultimately have "last (pruned ?X) = last ?X" by (rule last_pruned)
      then show "j \<in> set (last (buckets s))" using m b by simp
    qed
    have inb: "j < length lens \<and> hd bnds < lens ! j \<and> lens ! j \<le> last bnds"
      if "i < length (buckets s)" "j \<in> set (buckets s ! i)" for i j
    proof -
      have "buckets s ! i \<in> set ?X" using that(1) b pruned_subset[of ?X] by (metis nth_mem subsetD)
      then obtain i' where "i' < length ?X" "?X ! i' = buckets s ! i" by (auto simp: in_set_conv_nth)
      then show ?thesis using rng[of i' j] that(2) by simp
    qed
    have c: "\<forall>e bt. snd (iter P (set_epoch e s)) = Inr bt \<longrightarrow>
               (\<forall>b \<in> set bt. \<forall>j \<in> set b. j < length lens \<and> hd bnds < lens ! j \<and> lens ! j \<le> last bnds)"
    proof (intro allI impI ballI)
      fix e bt b j
      assume it: "snd (iter P (set_epoch e s)) = Inr bt" and bj: "b \<in> set bt" "j \<in> set b"
      from iter_subset[OF it bj(1)] obtain i where
        "i < length (buckets s)" "set b \<subseteq> set (buckets s ! i)"
        by (auto simp: set_epoch_def)
      then show "j < length lens \<and> hd bnds < lens ! j \<and> lens ! j \<le> last bnds"
        using inb[of i j] bj(2) by blast
    qed
    from a inb c show ?thesis by blast
  qed
  from 1 2 3 4 5 6 show ?thesis by blast
qed


theorem discard_rule_witness:
  "(\<lambda>_. [32, 300, 1000]) (0::nat) = [32, 300, 1000 :: int] \<and> sorted_wrt (<) [32, 300, 1000 :: int]
   \<and> classify [32, 300, 1000] [10, 50, 500, 1500, 32, 1000] 0
         (replicate (length [32, 300, 1000 :: int] - 1) []) = Inr [[1], [2, 5]]
   \<and> (\<exists>bkts0. classify [32, 300, 1000] [10, 50, 500, 1500, 32, 1000] 0
                  (replicate (length [32, 300, 1000 :: int] - 1) []) = Inr bkts0
     \<and> length bkts0 = length [32, 300, 1000 :: int] - 1
     \<and> (\<forall>i < length bkts0. \<forall>j. j \<in> set (bkts0 ! i) \<longleftrightarrow>
            j < length [10, 50, 500, 1500, 32, 1000 :: int]
            \<and> [32, 300, 1000] ! i < [10, 50, 500, 1500, 32, 1000 :: int] ! j
            \<and> [10, 50, 500, 1500, 32, 1000] ! j \<le> [32, 300, 1000 :: int] ! Suc i)
     \<and> (\<forall>j < length [10, 50, 500, 1500, 32, 1000 :: int]. \<forall>i < length bkts0.
            [10, 50, 500, 1500, 32, 1000] ! j = hd [32, 300, 1000 :: int]
            \<or> last [32, 300, 1000] < [10, 50, 500, 1500, 32, 1000 :: int] ! j \<longrightarrow> j \<notin> set (bkts0 ! i))
     \<and> (\<forall>j < length [10, 50, 500, 1500, 32, 1000 :: int].
            2 \<le> length [32, 300, 1000 :: int] \<and> [10, 50, 500, 1500, 32, 1000] ! j = last [32, 300, 1000 :: int]
            \<longrightarrow> j \<in> set (last bkts0))
     \<and> (\<forall>s. snd (init (\<lambda>_. [32, 300, 1000]) [10, 50, 500, 1500, 32, 1000] 2 0 2 1 True) = Inr s \<longrightarrow>
           (\<forall>j < length [10, 50, 500, 1500, 32, 1000 :: int].
              2 \<le> length [32, 300, 1000 :: int] \<and> [10, 50, 500, 1500, 32, 1000] ! j = last [32, 300, 1000 :: int]
              \<longrightarrow> j \<in> set (last (buckets s)))
         \<and> (\<forall>i < length (buckets s). \<forall>j \<in> set (buckets s ! i).
               j < length [10, 50, 500, 1500, 32, 1000 :: int]
               \<and> hd [32, 300, 1000] < [10, 50, 500, 1500, 32, 1000 :: int] ! j
               \<and> [10, 50, 500, 1500, 32, 1000] ! j \<le> last [32, 300, 1000 :: int])
         \<and> (\<forall>e bt. snd (iter example_prng (set_epoch e s)) = Inr bt \<longrightarrow>
               (\<forall>b \<in> set bt. \<forall>j \<in> set b. j < length [10, 50, 500, 1500, 32, 1000 :: int]
                  \<and> hd [32, 300, 1000] < [10, 50, 500, 1500, 32, 1000 :: int] ! j
                  \<and> [10, 50, 500, 1500, 32, 1000] ! j \<le> last [32, 300, 1000 :: int]))))"
proof -
  have c: "classify [32, 300, 1000] [10, 50, 500, 1500, 32, 1000] 0
         (replicate (length [32, 300, 1000 :: int] - 1) []) = Inr [[1], [2, 5]]"
    by code_simp
  have h: "(\<lambda>_. [32, 300, 1000]) (0::nat) = [32, 300, 1000 :: int]" "sorted_wrt (<) [32, 300, 1000 :: int]"
    by simp_all
  note th = discard_rule[OF h, where lens = "[10, 50, 500, 1500, 32, 1000]" and bs = 2 and nr = 2
      and rk = 1 and sh = True and P = example_prng]
  show ?thesis by (intro conjI h c th)
qed

subsection \<open>Determinism\<close>

lemma iter_fst: "\<exists>x. fst (iter P s) = s\<lparr>batches := x\<rparr>"
proof -
  have "fst (iter P s) = s \<or> (\<exists>bt. fst (iter P s) = s\<lparr>batches := Some bt\<rparr>)"
    by (auto simp: iter_def split: prod.splits sum.splits)
  moreover have "s = s\<lparr>batches := batches s\<rparr>" by simp
  ultimately show ?thesis by metis
qed

lemma iter_field_cong:
  assumes "buckets s' = buckets s" "num_samples_per_bucket s' = num_samples_per_bucket s"
    "rank s' = rank s" "num_replicas s' = num_replicas s" "batch_size s' = batch_size s"
    "shuffle s' = shuffle s" "epoch s' = epoch s" "num_samples s' = num_samples s"
  shows "snd (iter P s') = snd (iter P s)"
proof -
  have a: "all_indices P s' = all_indices P s" unfolding all_indices_def assms ..
  have "bucket_batches s' indices i = bucket_batches s indices i" for indices i
    unfolding bucket_batches_def assms ..
  then have bbq: "bucket_batches s' indices = bucket_batches s indices" for indices
    by (rule ext)
  have b: "bucket_loop s' indices = bucket_loop s indices" for indices
    unfolding bucket_loop_def assms bbq ..
  show ?thesis
    unfolding iter_def a b assms by (auto split: prod.splits sum.splits)
qed

text \<open>
  C1. \<open>__iter__\<close> on the sampler that a first \<open>__iter__\<close> left (with \<open>self.batches\<close>
  assigned) returns what the first call returned, and two samplers constructed from equal
  \<open>(lengths, boundaries, batch_size, num_replicas, rank)\<close>, in whatever stores and at
  whatever addresses, return the same batches for the same epoch: the generator is seeded
  from the epoch alone.
\<close>

theorem iter_deterministic:
  "snd (iter P (fst (iter P s))) = snd (iter P s)
   \<and> (h1 a1 = h2 a2 \<longrightarrow>
        map_sum id (\<lambda>s. snd (iter P (set_epoch e s))) (snd (init h1 lens bs a1 nr rk sh))
        = map_sum id (\<lambda>s. snd (iter P (set_epoch e s))) (snd (init h2 lens bs a2 nr rk sh)))"
proof
  obtain x where "fst (iter P s) = s\<lparr>batches := x\<rparr>" using iter_fst by blast
  then show "snd (iter P (fst (iter P s))) = snd (iter P s)"
    by (simp only:) (rule iter_field_cong, simp_all)
next
  show "h1 a1 = h2 a2 \<longrightarrow>
        map_sum id (\<lambda>s. snd (iter P (set_epoch e s))) (snd (init h1 lens bs a1 nr rk sh))
        = map_sum id (\<lambda>s. snd (iter P (set_epoch e s))) (snd (init h2 lens bs a2 nr rk sh))"
  proof
    assume "h1 a1 = h2 a2"
    then show "map_sum id (\<lambda>s. snd (iter P (set_epoch e s))) (snd (init h1 lens bs a1 nr rk sh))
        = map_sum id (\<lambda>s. snd (iter P (set_epoch e s))) (snd (init h2 lens bs a2 nr rk sh))"
    proof (cases "nr = 0 \<or> (bs = 0 \<and> 2 \<le> length (h2 a2))")
      case True
      then show ?thesis using \<open>h1 a1 = h2 a2\<close> by (simp add: init_snd)
    next
      case False
      have "snd (iter P (set_epoch e s1)) = snd (iter P (set_epoch e s2))"
        if "snd (init h1 lens bs a1 nr rk sh) = Inr s1" "snd (init h2 lens bs a2 nr rk sh) = Inr s2"
        for s1 s2
        by (rule iter_field_cong)
           (use that False \<open>h1 a1 = h2 a2\<close> in \<open>auto simp: init_snd set_epoch_def\<close>)
      moreover obtain s1 s2 where "snd (init h1 lens bs a1 nr rk sh) = Inr s1"
        "snd (init h2 lens bs a2 nr rk sh) = Inr s2"
        using False \<open>h1 a1 = h2 a2\<close> by (simp add: init_snd)
      ultimately show ?thesis by simp
    qed
  qed
qed


theorem iter_deterministic_witness:
  "let s = \<lparr> lengths = [10, 50, 500, 1500, 40, 60], batch_size = 2, boundaries = 0,
              num_replicas = 2, rank = 1, shuffle = True, epoch = 1,
              buckets = [[1, 4, 5], [2]], num_samples_per_bucket = [4, 4],
              total_size = 8, num_samples = 4, batches = None \<rparr>
   in snd (iter example_prng s) = Inr [[2, 2], [5, 4]]
    \<and> snd (iter example_prng (fst (iter example_prng s))) = snd (iter example_prng s)
    \<and> (\<lambda>_. [32, 300, 1000 :: int]) (0::nat) = ((\<lambda>_. [])(7 := [32, 300, 1000])) (7::nat)
    \<and> map_sum id (\<lambda>s. snd (iter example_prng (set_epoch 1 s)))
          (snd (init (\<lambda>_. [32, 300, 1000]) [10, 50, 500, 1500, 40, 60] 2 0 2 1 True))
      = map_sum id (\<lambda>s. snd (iter example_prng (set_epoch 1 s)))
          (snd (init ((\<lambda>_. [])(7 := [32, 300, 1000])) [10, 50, 500, 1500, 40, 60] 2 7 2 1 True))"
proof -
  let ?s = "\<lparr> lengths = [10, 50, 500, 1500, 40, 60], batch_size = 2, boundaries = 0,
              num_replicas = 2, rank = 1, shuffle = True, epoch = 1,
              buckets = [[1, 4, 5], [2]], num_samples_per_bucket = [4, 4],
              total_size = 8, num_samples = 4, batches = None \<rparr>"
  have v: "snd (iter example_prng ?s) = Inr [[2, 2], [5, 4]]" by code_simp
  note th = iter_deterministic[where P = example_prng and s = ?s
      and ?h1.0 = "\<lambda>_. [32, 300, 1000]" and ?a1.0 = 0
      and ?h2.0 = "(\<lambda>_. [])(7 := [32, 300, 1000])" and ?a2.0 = 7
      and e = 1 and lens = "[10, 50, 500, 1500, 40, 60]" and bs = 2 and nr = 2 and rk = 1 and sh = True]
  show ?thesis unfolding Let_def using v th by simp
qed

subsection \<open>All replicas together\<close>

lemma mset_concat_cong:
  assumes "mset xs = mset ys"
  shows "mset (concat xs) = mset (concat ys)"
proof -
  have "mset (concat zs) = sum_mset (image_mset mset (mset zs))" for zs :: "'a list list"
    by (simp add: mset_concat flip: sum_mset_sum_list)
  then show ?thesis using assms by simp
qed

lemma concat_concat_map: "concat (concat (map f xs)) = concat (map (\<lambda>x. concat (f x)) xs)"
  by (induction xs) simp_all

lemma mset_concat_upt: "mset (concat (map f [0 ..< k])) = (\<Sum>i = 0 ..< k. mset (f i))"
  by (induction k) (simp_all add: add.commute)

lemma epoch_shards:
  assumes r: "ready s" and p: "perms_of indices s"
  shows "mset (concat (concat (map (bb s indices) [0 ..< length (buckets s)])))
         = (\<Sum>i = 0 ..< length (buckets s).
              image_mset (\<lambda>x. buckets s ! i ! x)
                (mset (shard (padded_ids s indices i) (nat (rank s)) (nat (num_replicas s)))))"
proof -
  have "concat (concat (map (bb s indices) [0 ..< length (buckets s)]))
        = concat (map (\<lambda>i. concat (bb s indices i)) [0 ..< length (buckets s)])"
    by (rule concat_concat_map)
  also have "\<dots> = concat (map (\<lambda>i. map (\<lambda>x. buckets s ! i ! x)
                (shard (padded_ids s indices i) (nat (rank s)) (nat (num_replicas s))))
              [0 ..< length (buckets s)])"
    by (rule arg_cong[where f = concat], rule map_cong) (simp_all add: bb_facts(3)[OF r p])
  finally show ?thesis by (simp only: mset_concat_upt mset_map)
qed

lemma positions_disjoint:
  assumes "0 < N" "R1 < N" "R2 < N" "R1 \<noteq> R2"
  shows "\<exists>ps1 ps2. slice_positions n (int R1) (int N) = Inr ps1
            \<and> slice_positions n (int R2) (int N) = Inr ps2 \<and> set ps1 \<inter> set ps2 = {}"
proof -
  let ?ps = "\<lambda>R. map (\<lambda>k. R + k * N) [0 ..< (n + N - 1 - R) div N]"
  have "set (?ps R1) \<inter> set (?ps R2) = {}"
    unfolding positions_set[OF assms(1,2)] positions_set[OF assms(1,3)] using assms(4) by auto
  then show ?thesis
    using slice_positions_nat[OF assms(1,2), of n] slice_positions_nat[OF assms(1,3), of n] by blast
qed

text \<open>
  C2, as the code has it. Nothing checks \<open>batch_size\<close>; for a positive \<open>batch_size\<close>,
  one epoch and one configuration, with a generator whose \<open>randperm\<close> returns
  permutations: every rank in \<open>[0, num_replicas)\<close> gets its batches, the sample indices of
  all ranks' batches together are, counted with multiplicity, the sample indices of all
  buckets' padded lists together, and the positions that two different ranks take from a
  list of any length with \<open>[rank::num_replicas]\<close> are disjoint.
\<close>

theorem replica_partition:
  assumes "0 < nr" "0 < bs" "valid_prng P"
  shows "\<exists>S B.
      (\<forall>r < nat nr. snd (init h lens bs a nr (int r) sh) = Inr (S r)
                   \<and> snd (iter P (set_epoch e (S r))) = Inr (B r))
    \<and> (\<Sum>r = 0 ..< nat nr. mset (concat (B r)))
        = (\<Sum>i = 0 ..< length (buckets (S 0)).
             mset (padded_tile (set_epoch e (S 0)) (fst (all_indices P (set_epoch e (S 0)))) i))
    \<and> (\<forall>n r1 r2. r1 < nat nr \<and> r2 < nat nr \<and> r1 \<noteq> r2 \<longrightarrow>
          (\<exists>ps1 ps2. slice_positions n (int r1) nr = Inr ps1
                   \<and> slice_positions n (int r2) nr = Inr ps2 \<and> set ps1 \<inter> set ps2 = {}))"
proof -
  let ?N = "nat nr"
  have N: "0 < ?N" "int ?N = nr" using assms(1) by auto
  define X where "X = pruned (classes (h a) lens)"
  define S where "S = (\<lambda>r. \<lparr> lengths = lens, batch_size = bs, boundaries = a,
                 num_replicas = nr, rank = int r, shuffle = sh, epoch = 0,
                 buckets = X, num_samples_per_bucket = map (padded nr bs) X,
                 total_size = sum_list (map (padded nr bs) X),
                 num_samples = sum_list (map (padded nr bs) X) div nr,
                 batches = None \<rparr>)"
  define T where "T = (\<lambda>r. set_epoch e (S r))"
  have S_init: "snd (init h lens bs a nr (int r) sh) = Inr (S r)" for r
    using assms(1,2) by (simp add: init_snd S_def X_def)
  have rdy: "ready (T r)" if "r < ?N" for r
    using that assms(1,2) by (simp add: ready_def T_def S_def set_epoch_def)
  have f: "buckets (T r) = X" "rank (T r) = int r" "num_replicas (T r) = nr" for r
    by (simp_all add: T_def S_def set_epoch_def)
  have ai: "all_indices P (T r) = all_indices P (T 0)" for r
    by (simp add: all_indices_def T_def S_def set_epoch_def)
  define ind where "ind = fst (all_indices P (T 0))"
  have pd: "padded_ids (T r) ind i = padded_ids (T 0) ind i" for r i
    by (simp add: padded_ids_def T_def S_def set_epoch_def)
  have "perms_of ind (T 0)"
    unfolding ind_def by (rule all_indices_perms[OF assms(3)])
  then have perms: "perms_of ind (T r)" for r
    by (simp add: perms_of_def f)
  define B where "B = (\<lambda>r. projr (snd (iter P (T r))))"
  have B_ok: "snd (iter P (T r)) = Inr (B r)" "mset (B r) = mset (unshuffled P (T r))" if "r < ?N" for r
  proof -
    from iter_result[OF rdy[OF that] assms(3)] obtain bt where
      "snd (iter P (T r)) = Inr bt" "mset bt = mset (unshuffled P (T r))" by auto
    then show "snd (iter P (T r)) = Inr (B r)" "mset (B r) = mset (unshuffled P (T r))"
      by (simp_all add: B_def)
  qed
  let ?g = "\<lambda>i x. X ! i ! x"
  let ?pad = "\<lambda>i. padded_ids (T 0) ind i"
  have each: "mset (concat (B r))
              = (\<Sum>i = 0 ..< length X. image_mset (?g i) (mset (shard (?pad i) r ?N)))"
    if "r < ?N" for r
  proof -
    have "mset (concat (B r)) = mset (concat (unshuffled P (T r)))"
      by (rule mset_concat_cong[OF B_ok(2)[OF that]])
    also have "unshuffled P (T r) = concat (map (bb (T r) ind) [0 ..< length (buckets (T r))])"
      unfolding unshuffled_def ai[of r] ind_def ..
    also have "mset (concat (concat (map (bb (T r) ind) [0 ..< length (buckets (T r))])))
               = (\<Sum>i = 0 ..< length (buckets (T r)).
                    image_mset (\<lambda>x. buckets (T r) ! i ! x)
                      (mset (shard (padded_ids (T r) ind i) (nat (rank (T r))) (nat (num_replicas (T r))))))"
      by (rule epoch_shards[OF rdy[OF that] perms])
    finally show ?thesis unfolding f pd[of r] by simp
  qed
  have inner: "(\<Sum>r = 0 ..< ?N. image_mset (?g i) (mset (shard (?pad i) r ?N)))
               = mset (padded_tile (T 0) ind i)" for i
  proof -
    have "(\<Sum>r = 0 ..< ?N. image_mset (?g i) (mset (shard (?pad i) r ?N)))
          = image_mset (?g i) (\<Sum>r = 0 ..< ?N. mset (shard (?pad i) r ?N))"
      by (simp only: image_mset_sum_set)
    also have "\<dots> = image_mset (?g i) (mset (?pad i))"
      by (simp only: shard_sum[OF N(1)])
    also have "\<dots> = mset (padded_tile (T 0) ind i)"
      by (simp add: padded_tile_def f)
    finally show ?thesis .
  qed
  have "(\<Sum>r = 0 ..< ?N. mset (concat (B r)))
        = (\<Sum>r = 0 ..< ?N. \<Sum>i = 0 ..< length X. image_mset (?g i) (mset (shard (?pad i) r ?N)))"
    by (rule sum.cong) (simp_all add: each)
  also have "\<dots> = (\<Sum>i = 0 ..< length X. \<Sum>r = 0 ..< ?N. image_mset (?g i) (mset (shard (?pad i) r ?N)))"
    by (rule sum.swap)
  also have "\<dots> = (\<Sum>i = 0 ..< length X. mset (padded_tile (T 0) ind i))"
    by (simp only: inner)
  finally have total: "(\<Sum>r = 0 ..< ?N. mset (concat (B r)))
        = (\<Sum>i = 0 ..< length (buckets (S 0)).
             mset (padded_tile (set_epoch e (S 0)) (fst (all_indices P (set_epoch e (S 0)))) i))"
    unfolding ind_def T_def by (simp add: S_def)
  have first: "\<forall>r < ?N. snd (init h lens bs a nr (int r) sh) = Inr (S r)
                   \<and> snd (iter P (set_epoch e (S r))) = Inr (B r)"
    using S_init B_ok(1) unfolding T_def by blast
  have disj: "\<forall>n r1 r2. r1 < ?N \<and> r2 < ?N \<and> r1 \<noteq> r2 \<longrightarrow>
          (\<exists>ps1 ps2. slice_positions n (int r1) nr = Inr ps1
                   \<and> slice_positions n (int r2) nr = Inr ps2 \<and> set ps1 \<inter> set ps2 = {})"
    using positions_disjoint[OF N(1)] unfolding N(2) by blast
  from first total disj show ?thesis by blast
qed


theorem replica_partition_witness:
  "(0::int) < 2 \<and> (0::int) < 2 \<and> valid_prng example_prng
   \<and> map_sum id (\<lambda>s. snd (iter example_prng (set_epoch 1 s)))
         (snd (init (\<lambda>_. [32, 300, 1000]) [10, 50, 500, 1500, 40, 60] 2 0 2 0 True))
       = Inr (Inr [[2, 2], [4, 1]])
   \<and> map_sum id (\<lambda>s. snd (iter example_prng (set_epoch 1 s)))
         (snd (init (\<lambda>_. [32, 300, 1000]) [10, 50, 500, 1500, 40, 60] 2 0 2 1 True))
       = Inr (Inr [[2, 2], [5, 4]])
   \<and> (\<exists>S B.
      (\<forall>r < nat 2. snd (init (\<lambda>_. [32, 300, 1000]) [10, 50, 500, 1500, 40, 60] 2 0 2 (int r) True) = Inr (S r)
                   \<and> snd (iter example_prng (set_epoch 1 (S r))) = Inr (B r))
    \<and> (\<Sum>r = 0 ..< nat 2. mset (concat (B r)))
        = (\<Sum>i = 0 ..< length (buckets (S 0)).
             mset (padded_tile (set_epoch 1 (S 0)) (fst (all_indices example_prng (set_epoch 1 (S 0)))) i))
    \<and> (\<forall>n r1 r2. r1 < nat 2 \<and> r2 < nat 2 \<and> r1 \<noteq> r2 \<longrightarrow>
          (\<exists>ps1 ps2. slice_positions n (int r1) 2 = Inr ps1
                   \<and> slice_positions n (int r2) 2 = Inr ps2 \<and> set ps1 \<inter> set ps2 = {})))"
proof -
  have h: "(0::int) < 2" by simp
  have e0: "map_sum id (\<lambda>s. snd (iter example_prng (set_epoch 1 s)))
         (snd (init (\<lambda>_. [32, 300, 1000]) [10, 50, 500, 1500, 40, 60] 2 0 2 0 True))
       = Inr (Inr [[2, 2], [4, 1]])"
    by code_simp
  have e1: "map_sum id (\<lambda>s. snd (iter example_prng (set_epoch 1 s)))
         (snd (init (\<lambda>_. [32, 300, 1000]) [10, 50, 500, 1500, 40, 60] 2 0 2 1 True))
       = Inr (Inr [[2, 2], [5, 4]])"
    by code_simp
  note th = replica_partition[OF h h valid_example_prng,
      where h = "\<lambda>_. [32, 300, 1000]" and lens = "[10, 50, 500, 1500, 40, 60]" and a = 0
        and sh = True and e = 1]
  show ?thesis by (intro conjI h valid_example_prng e0 e1 th)
qed

text \<open>
  With \<open>batch_size = -1\<close> and two replicas both ranks are constructed, \<open>__iter__\<close> of
  either builds no batch and its assertion fails, while the padded list of the only bucket
  has five entries.
\<close>

theorem replica_partition_negative_batch_size_counterexample:
  "\<not> isl (snd (init (\<lambda>_. [32, 300]) [50, 60, 70] (- 1) 0 2 0 True))
   \<and> \<not> isl (snd (init (\<lambda>_. [32, 300]) [50, 60, 70] (- 1) 0 2 1 True))
   \<and> snd (iter example_prng (projr (snd (init (\<lambda>_. [32, 300]) [50, 60, 70] (- 1) 0 2 0 True))))
       = Inl AssertionError
   \<and> snd (iter example_prng (projr (snd (init (\<lambda>_. [32, 300]) [50, 60, 70] (- 1) 0 2 1 True))))
       = Inl AssertionError
   \<and> batches (fst (iter example_prng (projr (snd (init (\<lambda>_. [32, 300]) [50, 60, 70] (- 1) 0 2 0 True)))))
       = Some []
   \<and> batches (fst (iter example_prng (projr (snd (init (\<lambda>_. [32, 300]) [50, 60, 70] (- 1) 0 2 1 True)))))
       = Some []
   \<and> padded_tile (projr (snd (init (\<lambda>_. [32, 300]) [50, 60, 70] (- 1) 0 2 0 True)))
        (fst (all_indices example_prng (projr (snd (init (\<lambda>_. [32, 300]) [50, 60, 70] (- 1) 0 2 0 True))))) 0
       = [0, 1, 2, 0, 1]"
  by code_simp

end
